theory Spec2Isabelle
  imports Main "HOL-Library.Sublist"
begin

section \<open>Python values\<close>

text \<open>
  The exceptions the modelled code can raise. A function that can raise returns
  \<open>error + 'a\<close>, with \<open>Inl\<close> for the exception.
\<close>

datatype error = KeyError | IndexError | ValueError | TypeError | ZeroDivisionError | AssertionError

text \<open>Graph nodes and edge keys are Python ints or strs.\<close>

datatype atom = PyInt int | PyStr string

text \<open>\<open>str(n)\<close> for an int, as the f-string of an edge key formats it.\<close>

fun str_nat :: "nat \<Rightarrow> string" where
  "str_nat n = (if n < 10 then [char_of (48 + n)] else str_nat (n div 10) @ [char_of (48 + n mod 10)])"

declare str_nat.simps [simp del]

definition str_int :: "int \<Rightarrow> string" where
  "str_int i = (if i < 0 then CHR ''-'' # str_nat (nat (- i)) else str_nat (nat i))"

text \<open>A slice bound \<open>i\<close> of \<open>xs[i:j]\<close> against the length \<open>n\<close>, and the slice itself.\<close>

definition slice_bound :: "nat \<Rightarrow> int \<Rightarrow> nat" where
  "slice_bound n i = (if i < 0 then nat (max (int n + i) 0) else min (nat i) n)"

definition slice_lo :: "nat \<Rightarrow> int option \<Rightarrow> nat" where
  "slice_lo n start = (case start of None \<Rightarrow> 0 | Some i \<Rightarrow> slice_bound n i)"

definition slice_hi :: "nat \<Rightarrow> int option \<Rightarrow> nat" where
  "slice_hi n stop = (case stop of None \<Rightarrow> n | Some j \<Rightarrow> slice_bound n j)"

definition py_slice :: "'a list \<Rightarrow> int option \<Rightarrow> int option \<Rightarrow> 'a list" where
  "py_slice xs start stop =
     take (slice_hi (length xs) stop - slice_lo (length xs) start) (drop (slice_lo (length xs) start) xs)"

section \<open>Locations (Bio.SeqFeature)\<close>

text \<open>
  A part is \<open>(start, end, strand)\<close>. A \<open>SimpleLocation\<close> is one part, a
  \<open>CompoundLocation\<close> has at least two; \<open>parts\<close> is never empty.
\<close>

type_synonym part = "int \<times> int \<times> int option"

datatype location = SimpleLocation int int "int option" | CompoundLocation part part "part list"

definition part_start :: "part \<Rightarrow> int" where
  "part_start p = fst p"

definition part_end :: "part \<Rightarrow> int" where
  "part_end p = fst (snd p)"

definition part_strand :: "part \<Rightarrow> int option" where
  "part_strand p = snd (snd p)"

fun parts :: "location \<Rightarrow> part list" where
  "parts (SimpleLocation s e st) = [(s, e, st)]"
| "parts (CompoundLocation p q ps) = p # q # ps"

text \<open>\<open>len(location)\<close>: the sum of the lengths of the parts.\<close>

definition loc_len :: "location \<Rightarrow> int" where
  "loc_len l = sum_list (map (\<lambda>p. part_end p - part_start p) (parts l))"

text \<open>\<open>location.strand\<close>: the common strand of the parts, \<open>None\<close> when they differ.\<close>

definition loc_strand :: "location \<Rightarrow> int option" where
  "loc_strand l =
     (if list_all (\<lambda>p. part_strand p = part_strand (hd (parts l))) (parts l)
      then part_strand (hd (parts l)) else None)"

text \<open>\<open>location.start\<close> and \<open>location.end\<close>: the least start and the greatest end.\<close>

definition loc_start :: "location \<Rightarrow> int" where
  "loc_start l = fold min (map part_start (tl (parts l))) (part_start (hd (parts l)))"

definition loc_end :: "location \<Rightarrow> int" where
  "loc_end l = fold max (map part_end (tl (parts l))) (part_end (hd (parts l)))"

text \<open>\<open>str(location)\<close>, as in \<open>[8:14](+)\<close> and \<open>join{[8:14](+), [0:4](+)}\<close>.\<close>

definition str_part :: "part \<Rightarrow> string" where
  "str_part p =
     ''['' @ str_int (part_start p) @ '':'' @ str_int (part_end p) @ '']'' @
     (case part_strand p of
        None \<Rightarrow> ''''
      | Some st \<Rightarrow> if st = 1 then ''(+)'' else if st = - 1 then ''(-)'' else ''('' @ str_int st @ '')'')"

fun join_strs :: "string list \<Rightarrow> string" where
  "join_strs [] = ''''"
| "join_strs [s] = s"
| "join_strs (s # t # ss) = s @ '', '' @ join_strs (t # ss)"

fun str_location :: "location \<Rightarrow> string" where
  "str_location (SimpleLocation s e st) = str_part (s, e, st)"
| "str_location (CompoundLocation p q ps) = ''join{'' @ join_strs (map str_part (p # q # ps)) @ ''}''"

text \<open>
  The constructor \<open>SimpleLocation(start, end, strand)\<close> raises \<open>ValueError\<close> when the end
  is before the start.
\<close>

definition mk_simple :: "int \<Rightarrow> int \<Rightarrow> int option \<Rightarrow> error + location" where
  "mk_simple s e st = (if e < s then Inl ValueError else Inr (SimpleLocation s e st))"

text \<open>\<open>location._flip(length)\<close>: the same span on the reverse complement.\<close>

definition flip_strand :: "int option \<Rightarrow> int option" where
  "flip_strand st = (if st = Some 1 then Some (- 1) else if st = Some (- 1) then Some 1 else st)"

definition flip_part :: "int \<Rightarrow> part \<Rightarrow> part" where
  "flip_part n p = (n - part_end p, n - part_start p, flip_strand (part_strand p))"

fun flip :: "location \<Rightarrow> int \<Rightarrow> location" where
  "flip (SimpleLocation s e st) n = SimpleLocation (n - e) (n - s) (flip_strand st)"
| "flip (CompoundLocation p q ps) n = CompoundLocation (flip_part n p) (flip_part n q) (map (flip_part n) ps)"

text \<open>\<open>location._shift(offset)\<close>: every part moved by the offset.\<close>

definition shift_part_by :: "int \<Rightarrow> part \<Rightarrow> part" where
  "shift_part_by k p = (part_start p + k, part_end p + k, part_strand p)"

fun loc_shift :: "location \<Rightarrow> int \<Rightarrow> location" where
  "loc_shift (SimpleLocation s e st) k = SimpleLocation (s + k) (e + k) st"
| "loc_shift (CompoundLocation p q ps) k =
     CompoundLocation (shift_part_by k p) (shift_part_by k q) (map (shift_part_by k) ps)"

text \<open>
  Modelled from the spec: \<open>pydna.utils.shift_location\<close> (the spec's \<open>shift_and_wrap\<close>,
  section 4.1), which is imported by the source and not part of it. Every part is moved by
  \<open>shift\<close> modulo \<open>lim\<close>; a part that would run past \<open>lim\<close> is split in two across the
  origin; consecutive parts with no base between them are joined; the length of the
  location must be unchanged. \<open>lim\<close> is the length of a sequence, hence a \<open>nat\<close>;
  \<open>lim = 0\<close> is a division by zero.
\<close>

definition emit_part :: "int option \<Rightarrow> int \<Rightarrow> part list \<Rightarrow> int \<Rightarrow> int \<Rightarrow> part list" where
  "emit_part strand lim newparts new_start new_end =
     (if new_start < new_end then newparts @ [(new_start, new_end, strand)]
      else if strand \<noteq> Some (- 1)
        then newparts @ [(new_start, lim, strand), (0, new_end, strand)]
        else newparts @ [(0, new_end, strand), (new_start, lim, strand)])"

definition shift_step :: "int option \<Rightarrow> int \<Rightarrow> int \<Rightarrow> part list \<Rightarrow> part \<Rightarrow> part list" where
  "shift_step strand shift lim newparts p =
     (let new_start = (part_start p + shift) mod lim;
          new_end = (if (part_end p + shift) mod lim = 0 then lim else (part_end p + shift) mod lim)
      in if part_end p - part_start p = 0 then newparts @ [(new_start, new_start, strand)]
         else if strand \<noteq> Some (- 1) \<and> newparts \<noteq> [] \<and> part_end (last newparts) = new_start
           then emit_part strand lim (butlast newparts) (part_start (last newparts)) new_end
         else if strand = Some (- 1) \<and> newparts \<noteq> [] \<and> part_start (last newparts) = new_end
           then emit_part strand lim (butlast newparts) new_start (part_end (last newparts))
         else emit_part strand lim newparts new_start new_end)"

fun mk_location :: "part list \<Rightarrow> error + location" where
  "mk_location [] = Inl ValueError"
| "mk_location [(s, e, st)] = Inr (SimpleLocation s e st)"
| "mk_location (p # q # ps) = Inr (CompoundLocation p q ps)"

definition shift_location :: "location \<Rightarrow> int \<Rightarrow> nat \<Rightarrow> error + location" where
  "shift_location original_location shift lim =
     (if lim = 0 then Inl ZeroDivisionError
      else case mk_location (fold (\<lambda>p newparts. shift_step (loc_strand original_location) shift (int lim) newparts p)
                                  (parts original_location) []) of
             Inl e \<Rightarrow> Inl e
           | Inr newloc \<Rightarrow> if loc_len newloc = loc_len original_location then Inr newloc else Inl AssertionError)"

section \<open>Sequence records and the object store\<close>

text \<open>
  Modelled from the spec: the external record type \<open>Dseqrecord\<close> (section 6: a length,
  a sequence of symbols, slicing, concatenation, a list of annotations with shiftable
  locations). A record holds its symbols, its features and whether it is circular. A feature
  is an object whose \<open>location\<close> attribute the source assigns in place, so records hold
  references to features and the features live in a store.
\<close>

record feature =
  location :: location
  ftype :: string

record dseqrecord =
  seq :: string
  features :: "nat list"
  circular :: bool

section \<open>The overlap graph (networkx.MultiDiGraph)\<close>

text \<open>
  Nodes in insertion order, each with its \<open>seq\<close> attribute when it has one; edges
  \<open>(u, v, key)\<close> in insertion order, each with its \<open>locations\<close> attribute when it has one.
\<close>

type_synonym edge = "atom \<times> atom \<times> atom"

record graph =
  nodes :: "(atom \<times> dseqrecord option) list"
  edges :: "(edge \<times> (location \<times> location) option) list"

text \<open>The store: graph objects and feature objects, addressed by their index.\<close>

record heap =
  graphs :: "graph list"
  feats :: "feature list"

definition edge_u :: "edge \<Rightarrow> atom" where
  "edge_u e = fst e"

definition edge_v :: "edge \<Rightarrow> atom" where
  "edge_v e = fst (snd e)"

definition edge_key :: "edge \<Rightarrow> atom" where
  "edge_key e = snd (snd e)"

text \<open>\<open>G.add_node(n)\<close> without attributes: a node that is there is left as it is.\<close>

definition add_node :: "atom \<Rightarrow> graph \<Rightarrow> graph" where
  "add_node n g = (if n \<in> set (map fst (nodes g)) then g else g\<lparr>nodes := nodes g @ [(n, None)]\<rparr>)"

text \<open>The keys of the edges from \<open>u\<close> to \<open>v\<close>, in insertion order.\<close>

definition keys_between :: "graph \<Rightarrow> atom \<Rightarrow> atom \<Rightarrow> atom list" where
  "keys_between g u v = map edge_key (filter (\<lambda>e. edge_u e = u \<and> edge_v e = v) (map fst (edges g)))"

text \<open>
  \<open>new_edge_key\<close>: the number of edges from \<open>u\<close> to \<open>v\<close>, counted up while that key is
  taken. Among \<open>n + 1\<close> consecutive numbers one is not among \<open>n\<close> keys.
\<close>

definition new_edge_key :: "graph \<Rightarrow> atom \<Rightarrow> atom \<Rightarrow> atom" where
  "new_edge_key g u v =
     (let ks = keys_between g u v
      in PyInt (int (hd (filter (\<lambda>k. PyInt (int k) \<notin> set ks) [length ks ..< 2 * length ks + 1]))))"

text \<open>
  Storing an edge: the attributes of an edge that is there are updated where it stands
  (\<open>datadict.update(attr)\<close>), a new edge goes last.
\<close>

fun put_edge :: "edge \<Rightarrow> (location \<times> location) option \<Rightarrow> (edge \<times> (location \<times> location) option) list
    \<Rightarrow> (edge \<times> (location \<times> location) option) list" where
  "put_edge e attr [] = [(e, attr)]"
| "put_edge e attr ((e', attr') # es) =
     (if e' = e then (e', case attr of None \<Rightarrow> attr' | Some l \<Rightarrow> Some l) # es
      else (e', attr') # put_edge e attr es)"

text \<open>\<open>G.add_edge(u, v, key, locations=l)\<close>; without a key a new one is taken.\<close>

definition add_edge :: "atom \<Rightarrow> atom \<Rightarrow> atom option \<Rightarrow> (location \<times> location) option \<Rightarrow> graph \<Rightarrow> graph" where
  "add_edge u v key attr g =
     (let g1 = add_node v (add_node u g);
          k = (case key of None \<Rightarrow> new_edge_key g1 u v | Some k' \<Rightarrow> k')
      in g1\<lparr>edges := put_edge (u, v, k) attr (edges g1)\<rparr>)"

text \<open>\<open>G[u][v][key]['locations']\<close>: a \<open>KeyError\<close> when any of the four lookups fails.\<close>

definition locations :: "graph \<Rightarrow> edge \<Rightarrow> error + (location \<times> location)" where
  "locations g e =
     (case map_of (edges g) e of
        None \<Rightarrow> Inl KeyError
      | Some None \<Rightarrow> Inl KeyError
      | Some (Some l) \<Rightarrow> Inr l)"

text \<open>\<open>G.nodes[n]['seq']\<close>.\<close>

definition node_seq :: "graph \<Rightarrow> atom \<Rightarrow> error + dseqrecord" where
  "node_seq g n =
     (case map_of (nodes g) n of
        None \<Rightarrow> Inl KeyError
      | Some None \<Rightarrow> Inl KeyError
      | Some (Some r) \<Rightarrow> Inr r)"

section \<open>The module's functions\<close>

text \<open>\<open>is_sublist\<close>: some slice \<open>my_list[i:i+n]\<close> equals the first argument.\<close>

definition is_sublist :: "'a list \<Rightarrow> 'a list \<Rightarrow> bool" where
  "is_sublist sub my_list =
     list_ex (\<lambda>i. take (length sub) (drop i my_list) = sub)
       [0 ..< nat (int (length my_list) - int (length sub) + 1)]"

text \<open>
  \<open>circular_permutation_min_abs\<close>: \<open>min\<close> over the indices returns the first index of
  least \<open>abs\<close>; it raises \<open>ValueError\<close> on an empty list and \<open>abs\<close> raises \<open>TypeError\<close> on a
  str.
\<close>

fun py_abs :: "atom \<Rightarrow> error + int" where
  "py_abs (PyInt i) = Inr \<bar>i\<bar>"
| "py_abs (PyStr s) = Inl TypeError"

fun abs_all :: "atom list \<Rightarrow> error + int list" where
  "abs_all [] = Inr []"
| "abs_all (x # xs) =
     (case py_abs x of
        Inl e \<Rightarrow> Inl e
      | Inr a \<Rightarrow> (case abs_all xs of Inl e \<Rightarrow> Inl e | Inr as \<Rightarrow> Inr (a # as)))"

fun min_index_from :: "int list \<Rightarrow> nat \<Rightarrow> nat \<Rightarrow> int \<Rightarrow> nat" where
  "min_index_from [] i best bestv = best"
| "min_index_from (k # ks) i best bestv =
     (if k < bestv then min_index_from ks (Suc i) i k else min_index_from ks (Suc i) best bestv)"

definition min_index :: "int list \<Rightarrow> nat" where
  "min_index ks = min_index_from (tl ks) 1 0 (hd ks)"

definition circular_permutation_min_abs :: "atom list \<Rightarrow> error + atom list" where
  "circular_permutation_min_abs lst =
     (if lst = [] then Inl ValueError
      else case abs_all lst of
             Inl e \<Rightarrow> Inl e
           | Inr ks \<Rightarrow> Inr (drop (min_index ks) lst @ take (min_index ks) lst))"

text \<open>
  \<open>add_edges_from_match\<close>. \<open>first_len\<close> and \<open>secnd_len\<close> are \<open>len(first)\<close> and
  \<open>len(secnd)\<close>, the only use the function makes of the two records.
\<close>

definition edge_name :: "int \<Rightarrow> int \<Rightarrow> location \<times> location \<Rightarrow> string" where
  "edge_name u v l = str_int u @ str_location (fst l) @ '':'' @ str_int v @ str_location (snd l)"

definition add_match_edge :: "int \<Rightarrow> int \<Rightarrow> location \<times> location \<Rightarrow> graph \<Rightarrow> graph" where
  "add_match_edge u v l g = add_edge (PyInt u) (PyInt v) (Some (PyStr (edge_name u v l))) (Some l) g"

definition add_edges_from_match :: "int \<times> int \<times> int \<Rightarrow> int \<Rightarrow> int \<Rightarrow> nat \<Rightarrow> nat \<Rightarrow> graph \<Rightarrow> error + graph" where
  "add_edges_from_match match index_first index_secnd first_len secnd_len g =
     (case match of (x_start, y_start, len) \<Rightarrow>
        (case mk_simple x_start (x_start + len) (Some 1) of
           Inl e \<Rightarrow> Inl e
         | Inr lx \<Rightarrow>
        (case shift_location lx 0 first_len of
           Inl e \<Rightarrow> Inl e
         | Inr loc0 \<Rightarrow>
        (case mk_simple y_start (y_start + len) (Some 1) of
           Inl e \<Rightarrow> Inl e
         | Inr ly \<Rightarrow>
        (case shift_location ly 0 secnd_len of
           Inl e \<Rightarrow> Inl e
         | Inr loc1 \<Rightarrow>
             (let locs = (loc0, loc1);
                  rc_locs = (flip loc0 (int first_len), flip loc1 (int secnd_len))
              in Inr (add_match_edge (- index_secnd) (- index_first) (snd rc_locs, fst rc_locs)
                     (add_match_edge (- index_first) (- index_secnd) rc_locs
                     (add_match_edge index_secnd index_first (snd locs, fst locs)
                     (add_match_edge index_first index_secnd locs g))))))))))"

section \<open>Library operations on records\<close>

text \<open>Creating feature objects: they go to fresh addresses at the end of the store.\<close>

definition alloc_features :: "heap \<Rightarrow> feature list \<Rightarrow> nat list \<times> heap" where
  "alloc_features h fs = ([length (feats h) ..< length (feats h) + length fs], h\<lparr>feats := feats h @ fs\<rparr>)"

text \<open>\<open>feature._shift(offset)\<close> makes a new feature; this is its value.\<close>

definition feature_shift :: "feature \<Rightarrow> int \<Rightarrow> feature" where
  "feature_shift f k = f\<lparr>location := loc_shift (location f) k\<rparr>"

text \<open>
  Modelled from the spec: slicing of the external record type (section 6: slicing by
  position range returns a new fragment retaining or trimming annotations). The slice of a
  linear record holds the symbols of the range and, as new feature objects, the features
  that lie inside the range, moved to the new origin.
\<close>

definition slice_record :: "heap \<Rightarrow> dseqrecord \<Rightarrow> int option \<Rightarrow> int option \<Rightarrow> dseqrecord \<times> heap" where
  "slice_record h r start stop =
     (let lo = int (slice_lo (length (seq r)) start);
          hi = int (slice_hi (length (seq r)) stop);
          kept = filter (\<lambda>f. lo \<le> loc_start (location f) \<and> loc_end (location f) \<le> hi)
                   (map (\<lambda>a. feats h ! a) (features r));
          (refs, h1) = alloc_features h (map (\<lambda>f. feature_shift f (- lo)) kept)
      in (\<lparr>seq = py_slice (seq r) start stop, features = refs, circular = False\<rparr>, h1))"

text \<open>
  \<open>_nx.MultiDiGraph(G)\<close> makes a new graph object with the nodes and edges of \<open>G\<close>;
  the methods of a graph object change it in place.
\<close>

definition copy_graph :: "heap \<Rightarrow> nat \<Rightarrow> nat \<times> heap" where
  "copy_graph h a = (length (graphs h), h\<lparr>graphs := graphs h @ [graphs h ! a]\<rparr>)"

definition update_graph :: "nat \<Rightarrow> (graph \<Rightarrow> graph) \<Rightarrow> heap \<Rightarrow> heap" where
  "update_graph a f h = h\<lparr>graphs := (graphs h)[a := f (graphs h ! a)]\<rparr>"

section \<open>The class Assembly\<close>

text \<open>
  The attributes of an \<open>Assembly\<close> object; \<open>G\<close> is a reference to its graph object. The
  attribute \<open>algorithm\<close> is only read by the constructor and is left out.
\<close>

record assembly =
  G :: nat
  fragments :: "dseqrecord list"
  limit :: int
  use_fragment_order :: bool
  use_all_fragments :: bool

definition self_G :: "assembly \<Rightarrow> heap \<Rightarrow> graph" where
  "self_G self h = graphs h ! G self"

subsection \<open>validate_assembly\<close>

definition is_circular :: "edge list \<Rightarrow> bool" where
  "is_circular assembly = (edge_u (hd assembly) = edge_v (last assembly))"

fun check_edge_pairs :: "graph \<Rightarrow> (edge \<times> edge) list \<Rightarrow> error + bool" where
  "check_edge_pairs g [] = Inr True"
| "check_edge_pairs g ((e1, e2) # edge_pairs) =
     (case locations g e1 of
        Inl err \<Rightarrow> Inl err
      | Inr left_edge \<Rightarrow>
          (case locations g e2 of
             Inl err \<Rightarrow> Inl err
           | Inr right_edge \<Rightarrow>
               if part_end (last (parts (snd left_edge))) \<ge> part_end (hd (parts (fst right_edge)))
               then Inr False
               else check_edge_pairs g edge_pairs))"

definition edge_pairs_of :: "edge list \<Rightarrow> (edge \<times> edge) list" where
  "edge_pairs_of assembly =
     (if is_circular assembly then zip assembly (tl assembly @ take 1 assembly)
      else zip assembly (tl assembly))"

definition validate_assembly :: "assembly \<Rightarrow> heap \<Rightarrow> edge list \<Rightarrow> error + bool" where
  "validate_assembly self h assembly =
     (if length assembly = 0 then Inr False
      else if use_all_fragments self \<and>
              int (length assembly) - (if is_circular assembly then 1 else 0) \<noteq> int (length (fragments self)) - 1
        then Inr False
      else check_edge_pairs (self_G self h) (edge_pairs_of assembly))"

subsection \<open>remove_subassemblies\<close>

text \<open>
  \<open>sorted(assemblies, key=len, reverse=True)\<close> is stable: candidates of one length keep
  their order.
\<close>

definition remove_subassemblies :: "'a list list \<Rightarrow> 'a list list" where
  "remove_subassemblies assemblies =
     fold (\<lambda>assembly filtered_assemblies.
             if \<not> list_ex (is_sublist assembly) filtered_assemblies
             then filtered_assemblies @ [assembly] else filtered_assemblies)
          (sort_key (\<lambda>a. - int (length a)) assemblies) []"

subsection \<open>get_linear_assemblies\<close>

text \<open>\<open>filter\<close> with a predicate that can raise.\<close>

fun filter_err :: "('a \<Rightarrow> error + bool) \<Rightarrow> 'a list \<Rightarrow> error + 'a list" where
  "filter_err p [] = Inr []"
| "filter_err p (x # xs) =
     (case p x of
        Inl e \<Rightarrow> Inl e
      | Inr b \<Rightarrow> (case filter_err p xs of Inl e \<Rightarrow> Inl e | Inr ys \<Rightarrow> Inr (if b then x # ys else ys)))"

definition begin_node :: atom where
  "begin_node = PyStr ''begin''"

definition end_node :: atom where
  "end_node = PyStr ''end''"

text \<open>The body of the loop over the int nodes when the fragment order is not used.\<close>

fun anchor_node :: "assembly \<Rightarrow> atom \<Rightarrow> graph \<Rightarrow> graph" where
  "anchor_node self (PyInt i) g =
     add_edge (PyInt i) end_node None None
       (if \<not> use_fragment_order self \<and> i > 0 then add_edge begin_node (PyInt i) None None g else g)"
| "anchor_node self (PyStr s) g = g"

fun is_int :: "atom \<Rightarrow> bool" where
  "is_int (PyInt i) = True"
| "is_int (PyStr s) = False"

text \<open>
  \<open>_nx.all_simple_edge_paths\<close> is a parameter: the function is given the graph, the source
  and the target and returns the paths, each a list of edges. The store is returned as the
  call leaves it, also when \<open>validate_assembly\<close> raises.
\<close>

definition get_linear_assemblies ::
    "(graph \<Rightarrow> atom \<Rightarrow> atom \<Rightarrow> edge list list) \<Rightarrow> assembly \<Rightarrow> heap \<Rightarrow> (error + edge list list) \<times> heap" where
  "get_linear_assemblies all_simple_edge_paths self h =
     (let (g, h1) = copy_graph h (G self);
          h2 = update_graph g (add_node end_node) (update_graph g (add_node begin_node) h1);
          h3 = (if use_fragment_order self
                then update_graph g (add_edge (PyInt (- int (length (fragments self)))) end_node None None)
                    (update_graph g (add_edge (PyInt (int (length (fragments self)))) end_node None None)
                    (update_graph g (add_edge begin_node (PyInt (- 1)) None None)
                    (update_graph g (add_edge begin_node (PyInt 1) None None) h2)))
                else fold (\<lambda>node. update_graph g (anchor_node self node))
                       (filter is_int (map fst (nodes (graphs h2 ! g)))) h2)
      in (case filter_err (validate_assembly self h3)
                (map (\<lambda>x. butlast (tl x)) (all_simple_edge_paths (graphs h3 ! g) begin_node end_node)) of
            Inl e \<Rightarrow> (Inl e, h3)
          | Inr assemblies \<Rightarrow> (Inr (remove_subassemblies assemblies), h3)))"

subsection \<open>get_circular_assemblies\<close>

text \<open>The list \<open>combine\<close>: for every step of the cycle, the edges between the two nodes.\<close>

fun edges_along :: "graph \<Rightarrow> (atom \<times> atom) list \<Rightarrow> error + edge list list" where
  "edges_along g [] = Inr []"
| "edges_along g ((u, v) # steps) =
     (if keys_between g u v = [] then Inl KeyError
      else case edges_along g steps of
             Inl e \<Rightarrow> Inl e
           | Inr combine \<Rightarrow> Inr (map (\<lambda>key. (u, v, key)) (keys_between g u v) # combine))"

definition cycle2circular_assemblies :: "assembly \<Rightarrow> heap \<Rightarrow> atom list \<Rightarrow> error + edge list list" where
  "cycle2circular_assemblies self h cycle =
     (case edges_along (self_G self h) (zip cycle (tl cycle @ take 1 cycle)) of
        Inl e \<Rightarrow> Inl e
      | Inr combine \<Rightarrow> Inr (product_lists combine))"

text \<open>
  The lazy \<open>map\<close>, \<open>filter\<close> and \<open>sum\<close> over the cycles: each cycle is rotated, tested on
  its first node and expanded before the next one is looked at.
\<close>

fun circular_candidates :: "assembly \<Rightarrow> heap \<Rightarrow> atom list list \<Rightarrow> error + edge list list" where
  "circular_candidates self h [] = Inr []"
| "circular_candidates self h (cycle # cycles) =
     (case circular_permutation_min_abs cycle of
        Inl e \<Rightarrow> Inl e
      | Inr x \<Rightarrow>
          (case hd x of
             PyStr s \<Rightarrow> Inl TypeError
           | PyInt i \<Rightarrow>
               if i > 0
               then (case cycle2circular_assemblies self h x of
                       Inl e \<Rightarrow> Inl e
                     | Inr assemblies \<Rightarrow>
                         (case circular_candidates self h cycles of
                            Inl e \<Rightarrow> Inl e
                          | Inr rest \<Rightarrow> Inr (assemblies @ rest)))
               else circular_candidates self h cycles))"

text \<open>
  \<open>_nx.cycles.simple_cycles\<close> is a parameter: given the graph it returns the cycles, each
  a list of nodes. The method reads the store and changes nothing.
\<close>

definition get_circular_assemblies ::
    "(graph \<Rightarrow> atom list list) \<Rightarrow> assembly \<Rightarrow> heap \<Rightarrow> error + edge list list" where
  "get_circular_assemblies simple_cycles self h =
     (case circular_candidates self h (simple_cycles (self_G self h)) of
        Inl e \<Rightarrow> Inl e
      | Inr assemblies \<Rightarrow> filter_err (validate_assembly self h) assemblies)"

subsection \<open>edge_representation2subfragment_representation\<close>

text \<open>The entries of \<open>temp\<close>: edges whose components can be \<open>None\<close>.\<close>

type_synonym opt_edge = "atom option \<times> atom option \<times> atom option"

definition some_edge :: "edge \<Rightarrow> opt_edge" where
  "some_edge e = (Some (edge_u e), Some (edge_v e), Some (edge_key e))"

fun start_location :: "graph \<Rightarrow> opt_edge \<Rightarrow> error + location option" where
  "start_location g (None, v1, key1) = Inr None"
| "start_location g (Some u1, Some v1, Some key1) =
     (case locations g (u1, v1, key1) of Inl e \<Rightarrow> Inl e | Inr l \<Rightarrow> Inr (Some (snd l)))"
| "start_location g (Some u1, v1, key1) = Inl KeyError"

fun end_location :: "graph \<Rightarrow> opt_edge \<Rightarrow> error + location option" where
  "end_location g (u2, None, key2) = Inr None"
| "end_location g (Some u2, Some v2, Some key2) =
     (case locations g (u2, v2, key2) of Inl e \<Rightarrow> Inl e | Inr l \<Rightarrow> Inr (Some (fst l)))"
| "end_location g (u2, Some v2, key2) = Inl KeyError"

type_synonym subfragment_repr = "atom option \<times> location option \<times> location option"

fun alternative_representation :: "graph \<Rightarrow> (opt_edge \<times> opt_edge) list \<Rightarrow> error + subfragment_repr list" where
  "alternative_representation g [] = Inr []"
| "alternative_representation g ((t1, t2) # edge_pairs) =
     (case start_location g t1 of
        Inl e \<Rightarrow> Inl e
      | Inr s \<Rightarrow>
          (case end_location g t2 of
             Inl e \<Rightarrow> Inl e
           | Inr en \<Rightarrow>
               (case alternative_representation g edge_pairs of
                  Inl e \<Rightarrow> Inl e
                | Inr rest \<Rightarrow> Inr ((fst (snd t1), s, en) # rest))))"

definition temp_edges :: "edge list \<Rightarrow> opt_edge list" where
  "temp_edges assembly =
     (if is_circular assembly then some_edge (last assembly) # map some_edge assembly
      else (None, Some (edge_u (hd assembly)), None) # map some_edge assembly
             @ [(Some (edge_v (last assembly)), None, None)])"

definition edge_representation2subfragment_representation ::
    "assembly \<Rightarrow> heap \<Rightarrow> edge list \<Rightarrow> error + subfragment_repr list" where
  "edge_representation2subfragment_representation self h assembly =
     (if assembly = [] then Inl IndexError
      else alternative_representation (self_G self h) (zip (temp_edges assembly) (tl (temp_edges assembly))))"

subsection \<open>get_assembly_subfragments\<close>

definition slice_start :: "location option \<Rightarrow> int" where
  "slice_start start_loc = (case start_loc of None \<Rightarrow> 0 | Some l \<Rightarrow> part_start (hd (parts l)))"

definition slice_end :: "location option \<Rightarrow> int option" where
  "slice_end end_loc = (case end_loc of None \<Rightarrow> None | Some l \<Rightarrow> Some (part_end (last (parts l))))"

definition node_seq_opt :: "graph \<Rightarrow> atom option \<Rightarrow> error + dseqrecord" where
  "node_seq_opt g node = (case node of None \<Rightarrow> Inl KeyError | Some n \<Rightarrow> node_seq g n)"

fun get_assembly_subfragments ::
    "assembly \<Rightarrow> subfragment_repr list \<Rightarrow> heap \<Rightarrow> (error + dseqrecord list) \<times> heap" where
  "get_assembly_subfragments self [] h = (Inr [], h)"
| "get_assembly_subfragments self ((node, start_loc, end_loc) # rest) h =
     (case node_seq_opt (self_G self h) node of
        Inl e \<Rightarrow> (Inl e, h)
      | Inr sq \<Rightarrow>
          (case slice_record h sq (Some (slice_start start_loc)) (slice_end end_loc) of
             (sub, h1) \<Rightarrow>
               (case get_assembly_subfragments self rest h1 of
                  (Inl e, h2) \<Rightarrow> (Inl e, h2)
                | (Inr subfragments, h2) \<Rightarrow> (Inr (sub # subfragments), h2))))"

subsection \<open>assemble\<close>

fun fragment_overlaps_of :: "graph \<Rightarrow> edge list \<Rightarrow> error + int list" where
  "fragment_overlaps_of g [] = Inr []"
| "fragment_overlaps_of g (e # es) =
     (case locations g e of
        Inl err \<Rightarrow> Inl err
      | Inr l \<Rightarrow>
          (case fragment_overlaps_of g es of
             Inl err \<Rightarrow> Inl err
           | Inr rest \<Rightarrow> Inr (loc_len (snd l) # rest)))"

text \<open>
  The loop that joins the subfragments: the features of the right fragment are shifted
  into new feature objects, the right sequence is appended without its overlap.
\<close>

fun join_fragments :: "dseqrecord \<Rightarrow> (dseqrecord \<times> int) list \<Rightarrow> heap \<Rightarrow> dseqrecord \<times> heap" where
  "join_fragments out_dseqrecord [] h = (out_dseqrecord, h)"
| "join_fragments out_dseqrecord ((fragment, overlap) # rest) h =
     (case alloc_features h
             (map (\<lambda>a. feature_shift (feats h ! a) (int (length (seq out_dseqrecord)) - overlap))
                  (features fragment)) of
        (new_features, h1) \<Rightarrow>
          join_fragments
            \<lparr>seq = seq out_dseqrecord @ py_slice (seq fragment) (Some overlap) None,
             features = features out_dseqrecord @ new_features,
             circular = False\<rparr>
            rest h1)"

text \<open>
  The loop that wraps the features of a circular result: \<open>feature.location\<close> is assigned
  in place. When \<open>shift_location\<close> raises, the assignments made so far stay.
\<close>

fun wrap_features :: "nat \<Rightarrow> nat list \<Rightarrow> heap \<Rightarrow> (error + unit) \<times> heap" where
  "wrap_features n [] h = (Inr (), h)"
| "wrap_features n (a # as) h =
     (if part_start (hd (parts (location (feats h ! a)))) \<ge> int n
         \<or> part_end (last (parts (location (feats h ! a)))) > int n
      then (case shift_location (location (feats h ! a)) 0 n of
              Inl e \<Rightarrow> (Inl e, h)
            | Inr l \<Rightarrow> wrap_features n as (h\<lparr>feats := (feats h)[a := (feats h ! a)\<lparr>location := l\<rparr>]\<rparr>))
      else wrap_features n as h)"

definition close_loop :: "dseqrecord \<Rightarrow> int \<Rightarrow> dseqrecord" where
  "close_loop out_dseqrecord overlap =
     \<lparr>seq = py_slice (seq out_dseqrecord) None (Some (- overlap)),
      features = features out_dseqrecord, circular = True\<rparr>"

definition assemble :: "assembly \<Rightarrow> edge list \<Rightarrow> heap \<Rightarrow> (error + dseqrecord) \<times> heap" where
  "assemble self assembly_repr_edges h =
     (case edge_representation2subfragment_representation self h assembly_repr_edges of
        Inl e \<Rightarrow> (Inl e, h)
      | Inr assembly_repr_fragments \<Rightarrow>
     (case fragment_overlaps_of (self_G self h) assembly_repr_edges of
        Inl e \<Rightarrow> (Inl e, h)
      | Inr fragment_overlaps \<Rightarrow>
     (case get_assembly_subfragments self assembly_repr_fragments h of
        (Inl e, h1) \<Rightarrow> (Inl e, h1)
      | (Inr [], h1) \<Rightarrow> (Inl IndexError, h1)
      | (Inr (sub0 # subs), h1) \<Rightarrow>
     (case join_fragments sub0 (zip subs fragment_overlaps) h1 of
        (out_dseqrecord, h2) \<Rightarrow>
          if fst (snd (hd assembly_repr_fragments)) \<noteq> None
          then (case wrap_features (length (seq (close_loop out_dseqrecord (last fragment_overlaps))))
                       (features out_dseqrecord) h2 of
                  (Inl e, h3) \<Rightarrow> (Inl e, h3)
                | (Inr u, h3) \<Rightarrow> (Inr (close_loop out_dseqrecord (last fragment_overlaps)), h3))
          else (Inr out_dseqrecord, h2)))))"

subsection \<open>assemble_linear and assemble_circular\<close>

fun assemble_all :: "assembly \<Rightarrow> edge list list \<Rightarrow> heap \<Rightarrow> (error + dseqrecord list) \<times> heap" where
  "assemble_all self [] h = (Inr [], h)"
| "assemble_all self (a # as) h =
     (case assemble self a h of
        (Inl e, h1) \<Rightarrow> (Inl e, h1)
      | (Inr r, h1) \<Rightarrow>
          (case assemble_all self as h1 of
             (Inl e, h2) \<Rightarrow> (Inl e, h2)
           | (Inr rs, h2) \<Rightarrow> (Inr (r # rs), h2)))"

definition assemble_linear ::
    "(graph \<Rightarrow> atom \<Rightarrow> atom \<Rightarrow> edge list list) \<Rightarrow> assembly \<Rightarrow> heap \<Rightarrow> (error + dseqrecord list) \<times> heap" where
  "assemble_linear all_simple_edge_paths self h =
     (case get_linear_assemblies all_simple_edge_paths self h of
        (Inl e, h1) \<Rightarrow> (Inl e, h1)
      | (Inr assemblies, h1) \<Rightarrow> assemble_all self assemblies h1)"

definition assemble_circular ::
    "(graph \<Rightarrow> atom list list) \<Rightarrow> assembly \<Rightarrow> heap \<Rightarrow> (error + dseqrecord list) \<times> heap" where
  "assemble_circular simple_cycles self h =
     (case get_circular_assemblies simple_cycles self h of
        Inl e \<Rightarrow> (Inl e, h)
      | Inr assemblies \<Rightarrow> assemble_all self assemblies h)"

section \<open>Notions used in the statements and proofs\<close>

text \<open>One step of the loop of \<open>remove_subassemblies\<close>.\<close>

definition keep_step :: "'a list \<Rightarrow> 'a list list \<Rightarrow> 'a list list" where
  "keep_step a acc = (if \<not> list_ex (is_sublist a) acc then acc @ [a] else acc)"

text \<open>The order the kept candidates stand in: a later one is not longer and not contained.\<close>

definition longer_not_containing :: "'a list \<Rightarrow> 'a list \<Rightarrow> bool" where
  "longer_not_containing a b \<longleftrightarrow> length b \<le> length a \<and> \<not> sublist b a"

text \<open>
  The store \<open>h'\<close> extends \<open>h\<close>: every graph object and every feature object of \<open>h\<close> is
  in \<open>h'\<close> at its address with its value; \<open>h'\<close> can hold more objects.
\<close>

definition heap_extends :: "heap \<Rightarrow> heap \<Rightarrow> bool" where
  "heap_extends h h' \<longleftrightarrow> prefix (graphs h) (graphs h') \<and> prefix (feats h) (feats h')"

text \<open>
  The test of \<open>validate_assembly\<close> on two consecutive edges: the overlap of the first edge on
  its target ends (last part) before the overlap of the second edge on its source ends
  (first part).
\<close>

definition ordered_overlaps :: "graph \<Rightarrow> edge \<Rightarrow> edge \<Rightarrow> bool" where
  "ordered_overlaps g e1 e2 =
     (case locations g e1 of
        Inl err \<Rightarrow> False
      | Inr left_edge \<Rightarrow>
          (case locations g e2 of
             Inl err \<Rightarrow> False
           | Inr right_edge \<Rightarrow>
               part_end (last (parts (snd left_edge))) < part_end (hd (parts (fst right_edge)))))"

text \<open>The test of \<open>validate_assembly\<close> when all fragments must be used.\<close>

definition edge_count_ok :: "assembly \<Rightarrow> edge list \<Rightarrow> bool" where
  "edge_count_ok self assembly \<longleftrightarrow>
     int (length assembly) - (if is_circular assembly then 1 else 0) = int (length (fragments self)) - 1"

text \<open>
  The fragment a node stands for, and the fragments a candidate visits: the source of the
  first edge and the target of every edge; for a circular candidate the last target is the
  first source again and is not counted twice.
\<close>

fun fragment_of :: "atom \<Rightarrow> nat" where
  "fragment_of (PyInt i) = nat \<bar>i\<bar>"
| "fragment_of (PyStr s) = 0"

definition visited_fragments :: "edge list \<Rightarrow> nat list" where
  "visited_fragments assembly =
     (if is_circular assembly then map (\<lambda>e. fragment_of (edge_u e)) assembly
      else fragment_of (edge_u (hd assembly)) # map (\<lambda>e. fragment_of (edge_v e)) assembly)"

text \<open>
  The overlap of an edge lies in its two fragments: both locations are single spans of
  positive length inside the sequences of the two nodes. These are the locations
  \<open>add_edges_from_match\<close> stores for a match inside both sequences.
\<close>

definition overlap_in_fragments :: "graph \<Rightarrow> edge \<Rightarrow> bool" where
  "overlap_in_fragments g e \<longleftrightarrow>
     (\<exists>s0 t0 st0 s1 t1 st1 ru rv.
        locations g e = Inr (SimpleLocation s0 t0 st0, SimpleLocation s1 t1 st1)
        \<and> node_seq g (edge_u e) = Inr ru \<and> node_seq g (edge_v e) = Inr rv
        \<and> 0 \<le> s0 \<and> s0 < t0 \<and> t0 \<le> int (length (seq ru))
        \<and> 0 \<le> s1 \<and> s1 < t1 \<and> t1 \<le> int (length (seq rv)))"

text \<open>
  The length of the subfragment \<open>get_assembly_subfragments\<close> cuts for an entry of the
  fragment representation: from the start of the left overlap, or from 0, to the end of the
  right overlap, or to the end of the sequence.
\<close>

definition subfragment_length :: "graph \<Rightarrow> subfragment_repr \<Rightarrow> int" where
  "subfragment_length g fr =
     (case fr of (node, start_loc, end_loc) \<Rightarrow>
        (case slice_end end_loc of
           None \<Rightarrow> (case node_seq_opt g node of Inl e \<Rightarrow> 0 | Inr sq \<Rightarrow> int (length (seq sq)))
         | Some e \<Rightarrow> e)
        - slice_start start_loc)"

text \<open>The candidate is a chain: every edge starts at the node the edge before ends at.\<close>

definition is_chain :: "edge list \<Rightarrow> bool" where
  "is_chain assembly \<longleftrightarrow> (\<forall>k. Suc k < length assembly \<longrightarrow> edge_v (assembly ! k) = edge_u (assembly ! Suc k))"

text \<open>
  The entry of the fragment representation for the fragment between two consecutive edges.
\<close>

definition mid_repr :: "graph \<Rightarrow> edge \<times> edge \<Rightarrow> subfragment_repr" where
  "mid_repr g p =
     (Some (edge_v (fst p)), Some (snd (projr (locations g (fst p)))), Some (fst (projr (locations g (snd p)))))"

text \<open>What \<open>fragment_overlaps\<close> holds for an edge.\<close>

definition overlap_length :: "graph \<Rightarrow> edge \<Rightarrow> int" where
  "overlap_length g e = loc_len (snd (projr (locations g e)))"

text \<open>
  The record \<open>sub\<close> holds the symbols \<open>get_assembly_subfragments\<close> cuts for the entry
  \<open>fr\<close> of the fragment representation.
\<close>

definition cut_from :: "graph \<Rightarrow> subfragment_repr \<Rightarrow> dseqrecord \<Rightarrow> bool" where
  "cut_from g fr sub \<longleftrightarrow>
     (\<exists>sq. node_seq_opt g (fst fr) = Inr sq
          \<and> seq sub = py_slice (seq sq) (Some (slice_start (fst (snd fr)))) (slice_end (snd (snd fr))))"

text \<open>
  The calls of the three methods on one \<open>Assembly\<close> object, and the store a sequence of
  such calls leaves. \<open>get_circular_assemblies\<close> only reads the store.
\<close>

datatype call = GetLinear | GetCircular | Assemble "edge list"

fun run_call ::
    "(graph \<Rightarrow> atom \<Rightarrow> atom \<Rightarrow> edge list list) \<Rightarrow> assembly \<Rightarrow> call \<Rightarrow> heap \<Rightarrow> heap" where
  "run_call all_simple_edge_paths self GetLinear h = snd (get_linear_assemblies all_simple_edge_paths self h)"
| "run_call all_simple_edge_paths self GetCircular h = h"
| "run_call all_simple_edge_paths self (Assemble assembly_repr_edges) h = snd (assemble self assembly_repr_edges h)"

definition run_calls ::
    "(graph \<Rightarrow> atom \<Rightarrow> atom \<Rightarrow> edge list list) \<Rightarrow> assembly \<Rightarrow> call list \<Rightarrow> heap \<Rightarrow> heap" where
  "run_calls all_simple_edge_paths self calls h = fold (run_call all_simple_edge_paths self) calls h"

text \<open>The feature objects of a record, read in a store.\<close>

definition feature_values :: "heap \<Rightarrow> dseqrecord \<Rightarrow> feature list" where
  "feature_values h r = map (\<lambda>a. feats h ! a) (features r)"

text \<open>
  The objects of the store are there: the graph of the \<open>Assembly\<close> object, and the features
  of its fragments and of the records on the nodes of its graph.
\<close>

definition live :: "assembly \<Rightarrow> heap \<Rightarrow> bool" where
  "live self h \<longleftrightarrow>
     G self < length (graphs h)
     \<and> (\<forall>r \<in> set (fragments self). \<forall>a \<in> set (features r). a < length (feats h))
     \<and> (\<forall>n r. node_seq (self_G self h) n = Inr r \<longrightarrow> (\<forall>a \<in> set (features r). a < length (feats h)))"

text \<open>The features of a record are objects made after the store had \<open>n\<close> features.\<close>

definition made_since :: "nat \<Rightarrow> heap \<Rightarrow> dseqrecord \<Rightarrow> bool" where
  "made_since n h r \<longleftrightarrow> (\<forall>a \<in> set (features r). n \<le> a \<and> a < length (feats h))"

text \<open>What a caller reads from a record: its symbols, its circularity and its features.\<close>

definition record_value :: "heap \<Rightarrow> dseqrecord \<Rightarrow> string \<times> bool \<times> feature list" where
  "record_value h r = (seq r, circular r, feature_values h r)"

text \<open>The features of a record are objects of the store, no object twice.\<close>

definition good :: "heap \<Rightarrow> dseqrecord \<Rightarrow> bool" where
  "good h r \<longleftrightarrow> distinct (features r) \<and> (\<forall>a \<in> set (features r). a < length (feats h))"

text \<open>
  Two stores hold the same graph for the \<open>Assembly\<close> object and the same features for the
  records on its nodes.
\<close>

definition inputs_agree :: "assembly \<Rightarrow> heap \<Rightarrow> heap \<Rightarrow> bool" where
  "inputs_agree self h hX \<longleftrightarrow>
     self_G self h = self_G self hX
     \<and> (\<forall>n r. node_seq (self_G self h) n = Inr r \<longrightarrow> feature_values h r = feature_values hX r)"

text \<open>Two records, each read in its store, have the same value and are \<open>good\<close>.\<close>

definition agree :: "heap \<Rightarrow> heap \<Rightarrow> dseqrecord \<Rightarrow> dseqrecord \<Rightarrow> bool" where
  "agree h hX r rX \<longleftrightarrow> record_value h r = record_value hX rX \<and> good h r \<and> good hX rX"





section \<open>Examples\<close>

text \<open>
  The fragments of the module's \<open>example_fragments\<close>, here with one feature on the first and
  one on the third, and their reverse complements; the graph the constructor builds from
  them with \<open>limit = 5\<close>.
\<close>

definition frag_a :: dseqrecord where
  "frag_a = \<lparr>seq = ''AacgatCAtgctcc'', features = [0], circular = False\<rparr>"

definition frag_b :: dseqrecord where
  "frag_b = \<lparr>seq = ''TtgctccTAAattctgc'', features = [], circular = False\<rparr>"

definition frag_c :: dseqrecord where
  "frag_c = \<lparr>seq = ''CattctgcGAGGacgatG'', features = [1], circular = False\<rparr>"

definition frag_a_rc :: dseqrecord where
  "frag_a_rc = \<lparr>seq = ''ggagcaTGatcgtT'', features = [2], circular = False\<rparr>"

definition frag_b_rc :: dseqrecord where
  "frag_b_rc = \<lparr>seq = ''gcagaatTTAggagcaA'', features = [], circular = False\<rparr>"

definition frag_c_rc :: dseqrecord where
  "frag_c_rc = \<lparr>seq = ''CatcgtCCTCgcagaatG'', features = [3], circular = False\<rparr>"

definition example_feats :: "feature list" where
  "example_feats =
     [\<lparr>location = SimpleLocation 2 6 (Some 1), ftype = ''misc_a''\<rparr>,
      \<lparr>location = SimpleLocation 10 17 (Some 1), ftype = ''misc_c''\<rparr>,
      \<lparr>location = SimpleLocation 8 12 (Some (- 1)), ftype = ''misc_a''\<rparr>,
      \<lparr>location = SimpleLocation 1 8 (Some (- 1)), ftype = ''misc_c''\<rparr>]"

definition example_nodes :: graph where
  "example_nodes =
     \<lparr>nodes = [(PyInt 1, Some frag_a), (PyInt 2, Some frag_b), (PyInt 3, Some frag_c),
               (PyInt (- 1), Some frag_a_rc), (PyInt (- 2), Some frag_b_rc), (PyInt (- 3), Some frag_c_rc)],
      edges = []\<rparr>"

definition e12 :: edge where
  "e12 = (PyInt 1, PyInt 2, PyStr ''1[8:14](+):2[1:7](+)'')"

definition e21 :: edge where
  "e21 = (PyInt 2, PyInt 1, PyStr ''2[1:7](+):1[8:14](+)'')"

definition e13 :: edge where
  "e13 = (PyInt 1, PyInt 3, PyStr ''1[1:6](+):3[12:17](+)'')"

definition e31 :: edge where
  "e31 = (PyInt 3, PyInt 1, PyStr ''3[12:17](+):1[1:6](+)'')"

definition e23 :: edge where
  "e23 = (PyInt 2, PyInt 3, PyStr ''2[10:17](+):3[1:8](+)'')"

definition e32 :: edge where
  "e32 = (PyInt 3, PyInt 2, PyStr ''3[1:8](+):2[10:17](+)'')"

definition example_graph :: graph where
  "example_graph =
     \<lparr>nodes = nodes example_nodes,
      edges =
        [(e12, Some (SimpleLocation 8 14 (Some 1), SimpleLocation 1 7 (Some 1))),
         (e21, Some (SimpleLocation 1 7 (Some 1), SimpleLocation 8 14 (Some 1))),
         ((PyInt (- 1), PyInt (- 2), PyStr ''-1[0:6](-):-2[10:16](-)''),
            Some (SimpleLocation 0 6 (Some (- 1)), SimpleLocation 10 16 (Some (- 1)))),
         ((PyInt (- 2), PyInt (- 1), PyStr ''-2[10:16](-):-1[0:6](-)''),
            Some (SimpleLocation 10 16 (Some (- 1)), SimpleLocation 0 6 (Some (- 1)))),
         (e13, Some (SimpleLocation 1 6 (Some 1), SimpleLocation 12 17 (Some 1))),
         (e31, Some (SimpleLocation 12 17 (Some 1), SimpleLocation 1 6 (Some 1))),
         ((PyInt (- 1), PyInt (- 3), PyStr ''-1[8:13](-):-3[1:6](-)''),
            Some (SimpleLocation 8 13 (Some (- 1)), SimpleLocation 1 6 (Some (- 1)))),
         ((PyInt (- 3), PyInt (- 1), PyStr ''-3[1:6](-):-1[8:13](-)''),
            Some (SimpleLocation 1 6 (Some (- 1)), SimpleLocation 8 13 (Some (- 1)))),
         (e23, Some (SimpleLocation 10 17 (Some 1), SimpleLocation 1 8 (Some 1))),
         (e32, Some (SimpleLocation 1 8 (Some 1), SimpleLocation 10 17 (Some 1))),
         ((PyInt (- 2), PyInt (- 3), PyStr ''-2[0:7](-):-3[10:17](-)''),
            Some (SimpleLocation 0 7 (Some (- 1)), SimpleLocation 10 17 (Some (- 1)))),
         ((PyInt (- 3), PyInt (- 2), PyStr ''-3[10:17](-):-2[0:7](-)''),
            Some (SimpleLocation 10 17 (Some (- 1)), SimpleLocation 0 7 (Some (- 1))))]\<rparr>"

definition example_heap :: heap where
  "example_heap = \<lparr>graphs = [example_graph], feats = example_feats\<rparr>"

definition example_asm :: assembly where
  "example_asm =
     \<lparr>G = 0, fragments = [frag_a, frag_b, frag_c], limit = 5,
      use_fragment_order = False, use_all_fragments = False\<rparr>"

text \<open>
  Enumerators for the examples, in place of the two networkx functions: a depth-first
  search for the simple paths over edges from a source to a target, and one for the simple
  cycles over nodes, each cycle listed from its first node in the order of the graph.
\<close>

definition out_edges :: "graph \<Rightarrow> atom \<Rightarrow> edge list" where
  "out_edges g u = filter (\<lambda>e. edge_u e = u) (map fst (edges g))"

fun simple_paths_from :: "nat \<Rightarrow> graph \<Rightarrow> atom list \<Rightarrow> atom \<Rightarrow> atom \<Rightarrow> edge list list" where
  "simple_paths_from 0 g visited u t = []"
| "simple_paths_from (Suc n) g visited u t =
     concat (map (\<lambda>e. if edge_v e = t then [[e]]
                       else if edge_v e \<in> set visited then []
                       else map ((#) e) (simple_paths_from n g (edge_v e # visited) (edge_v e) t))
                 (out_edges g u))"

definition dfs_simple_edge_paths :: "graph \<Rightarrow> atom \<Rightarrow> atom \<Rightarrow> edge list list" where
  "dfs_simple_edge_paths g s t = (if s = t then [] else simple_paths_from (length (nodes g)) g [s] s t)"

fun simple_cycles_from :: "nat \<Rightarrow> graph \<Rightarrow> atom list \<Rightarrow> atom \<Rightarrow> atom \<Rightarrow> atom list \<Rightarrow> atom list list" where
  "simple_cycles_from 0 g path u s allowed = []"
| "simple_cycles_from (Suc n) g path u s allowed =
     concat (map (\<lambda>v. if v = s then [rev path]
                       else if v \<in> set path \<or> v \<notin> set allowed then []
                       else simple_cycles_from n g (v # path) v s allowed)
                 (remdups (map edge_v (out_edges g u))))"

definition dfs_simple_cycles :: "graph \<Rightarrow> atom list list" where
  "dfs_simple_cycles g =
     concat (map (\<lambda>i. simple_cycles_from (length (nodes g)) g [fst (nodes g ! i)] (fst (nodes g ! i))
                         (fst (nodes g ! i)) (map fst (drop (Suc i) (nodes g))))
                 [0 ..< length (nodes g)])"

text \<open>
  The example of the docstring: the match \<open>(8, 1, 6)\<close> between fragments 1 and 2 of lengths
  14 and 17, added to a graph with the nodes 1 and 2.
\<close>

definition doc_nodes :: graph where
  "doc_nodes = \<lparr>nodes = [(PyInt 1, None), (PyInt 2, None)], edges = []\<rparr>"

text \<open>
  A second example. The first fragment overlaps the second and the third, each in both
  orientations: the matches of length 6 are \<open>GATTCA\<close> between fragments 1 and 2,
  \<open>ACTGGA\<close> between fragment 1 and the reverse complement of fragment 2, \<open>TTCGCA\<close> between
  fragments 1 and 3, and \<open>CCGTAG\<close> between fragment 1 and the reverse complement of
  fragment 3. There is no other common substring of length 5 or more.
\<close>

definition frag_p :: dseqrecord where
  "frag_p = \<lparr>seq = ''CCGTAGTTCGCAGATTCAACTGGA'', features = [], circular = False\<rparr>"

definition frag_q :: dseqrecord where
  "frag_q = \<lparr>seq = ''GATTCAttTCCAGT'', features = [], circular = False\<rparr>"

definition frag_r :: dseqrecord where
  "frag_r = \<lparr>seq = ''CTACGGaaTTCGCA'', features = [], circular = False\<rparr>"

definition frag_p_rc :: dseqrecord where
  "frag_p_rc = \<lparr>seq = ''TCCAGTTGAATCTGCGAACTACGG'', features = [], circular = False\<rparr>"

definition frag_q_rc :: dseqrecord where
  "frag_q_rc = \<lparr>seq = ''ACTGGAaaTGAATC'', features = [], circular = False\<rparr>"

definition frag_r_rc :: dseqrecord where
  "frag_r_rc = \<lparr>seq = ''TGCGAAttCCGTAG'', features = [], circular = False\<rparr>"

definition turn_nodes :: graph where
  "turn_nodes =
     \<lparr>nodes = [(PyInt 1, Some frag_p), (PyInt 2, Some frag_q), (PyInt 3, Some frag_r),
               (PyInt (- 1), Some frag_p_rc), (PyInt (- 2), Some frag_q_rc), (PyInt (- 3), Some frag_r_rc)],
      edges = []\<rparr>"

text \<open>
  The loops of the constructor over the matches, the matcher's results given: each entry is
  a match with the two node indices and the two fragment lengths
  \<open>add_edges_from_match\<close> is called with.
\<close>

fun add_matches :: "((int \<times> int \<times> int) \<times> int \<times> int \<times> nat \<times> nat) list \<Rightarrow> graph \<Rightarrow> error + graph" where
  "add_matches [] g = Inr g"
| "add_matches ((match, index_first, index_secnd, first_len, secnd_len) # rest) g =
     (case add_edges_from_match match index_first index_secnd first_len secnd_len g of
        Inl e \<Rightarrow> Inl e
      | Inr g' \<Rightarrow> add_matches rest g')"

definition turn_matches :: "((int \<times> int \<times> int) \<times> int \<times> int \<times> nat \<times> nat) list" where
  "turn_matches =
     [((12, 0, 6), 1, 2, 24, 14), ((18, 0, 6), 1, - 2, 24, 14),
      ((6, 8, 6), 1, 3, 24, 14), ((0, 8, 6), 1, - 3, 24, 14)]"

definition turn_graph :: graph where
  "turn_graph = (case add_matches turn_matches turn_nodes of Inl e \<Rightarrow> turn_nodes | Inr g \<Rightarrow> g)"

definition turn_heap :: heap where
  "turn_heap = \<lparr>graphs = [turn_graph], feats = []\<rparr>"

definition turn_asm :: assembly where
  "turn_asm =
     \<lparr>G = 0, fragments = [frag_p, frag_q, frag_r], limit = 5,
      use_fragment_order = False, use_all_fragments = False\<rparr>"

definition turn_asm_all :: assembly where
  "turn_asm_all = turn_asm\<lparr>use_all_fragments := True\<rparr>"

text \<open>The edges of the second example that the statements name.\<close>

definition u12 :: edge where
  "u12 = (PyInt 1, PyInt 2, PyStr ''1[12:18](+):2[0:6](+)'')"

definition u2n1 :: edge where
  "u2n1 = (PyInt 2, PyInt (- 1), PyStr ''2[8:14](-):-1[0:6](-)'')"

definition un1n3 :: edge where
  "un1n3 = (PyInt (- 1), PyInt (- 3), PyStr ''-1[12:18](-):-3[0:6](-)'')"


definition u1n2 :: edge where
  "u1n2 = (PyInt 1, PyInt (- 2), PyStr ''1[18:24](+):-2[0:6](+)'')"

definition un2n1 :: edge where
  "un2n1 = (PyInt (- 2), PyInt (- 1), PyStr ''-2[8:14](-):-1[6:12](-)'')"

definition un13 :: edge where
  "un13 = (PyInt (- 1), PyInt 3, PyStr ''-1[18:24](-):3[0:6](-)'')"

definition u31 :: edge where
  "u31 = (PyInt 3, PyInt 1, PyStr ''3[8:14](+):1[6:12](+)'')"

definition u21 :: edge where
  "u21 = (PyInt 2, PyInt 1, PyStr ''2[0:6](+):1[12:18](+)'')"

definition un1n2 :: edge where
  "un1n2 = (PyInt (- 1), PyInt (- 2), PyStr ''-1[6:12](-):-2[8:14](-)'')"

section \<open>The edges of a match\<close>

lemma map_of_put_edge:
  "map_of (put_edge e (Some l) es) = (map_of es)(e \<mapsto> Some l)"
  by (induction es) (auto simp: fun_eq_iff)

lemma keys_put_edge:
  "map fst (put_edge e a es) = (if e \<in> set (map fst es) then map fst es else map fst es @ [e])"
proof (induction es)
  case Nil then show ?case by simp
next
  case (Cons x es)
  obtain e' a' where x: "x = (e', a')" by (cases x)
  show ?case using Cons by (auto simp: x image_iff)
qed

lemma edges_add_edge:
  "edges (add_edge u v (Some k) a g) = put_edge (u, v, k) a (edges g)"
  by (simp add: add_edge_def add_node_def Let_def)

lemma edges_add_match_edge:
  "edges (add_match_edge u v l g) = put_edge (PyInt u, PyInt v, PyStr (edge_name u v l)) (Some l) (edges g)"
  by (simp add: add_match_edge_def edges_add_edge)

lemma shift_location_in_range:
  assumes "0 \<le> x" "0 < n" "x + n \<le> int lim"
  shows "shift_location (SimpleLocation x (x + n) st) 0 lim = Inr (SimpleLocation x (x + n) st)"
proof -
  have lim: "lim \<noteq> 0" and xm: "x mod int lim = x" using assms by auto
  have step: "shift_step st 0 (int lim) [] (x, x + n, st) = [(x, x + n, st)]"
  proof (cases "x + n = int lim")
    case True
    then have "(x + n) mod int lim = 0" by simp
    then show ?thesis using assms xm True
      by (simp add: shift_step_def emit_part_def part_start_def part_end_def Let_def)
  next
    case False
    then have "x + n < int lim" using assms by simp
    then have "(x + n) mod int lim = x + n" using assms by simp
    then show ?thesis using assms xm
      by (simp add: shift_step_def emit_part_def part_start_def part_end_def Let_def)
  qed
  have st: "loc_strand (SimpleLocation x (x + n) st) = st"
    by (simp add: loc_strand_def part_strand_def)
  show ?thesis
    using lim by (simp add: shift_location_def st step)
qed

lemma length_put_edge:
  "length (put_edge e a es) = (if e \<in> set (map fst es) then length es else Suc (length es))"
  using arg_cong [OF keys_put_edge [of e a es], of length] by (simp split: if_splits)

lemma loc_len_simple: "loc_len (SimpleLocation s e st) = e - s"
  by (simp add: loc_len_def part_start_def part_end_def)

text \<open>
  C1. For a raw match \<open>(x, y, n)\<close> of the matcher between a left node \<open>L\<close> and a right node
  \<open>R\<close> (a span of positive length inside both sequences, two different fragments),
  \<open>add_edges_from_match\<close> returns the graph with exactly four edges stored and nothing else
  changed: \<open>(L, R)\<close> with \<open>[locL, locR]\<close>, \<open>(R, L)\<close> with \<open>[locR, locL]\<close>, \<open>(-L, -R)\<close> with the
  flipped locations and \<open>(-R, -L)\<close> with the flipped pair reversed, where
  \<open>locL = [x, x + n)\<close> and \<open>locR = [y, y + n)\<close>. The four edges are pairwise different, the
  graph grows by four edges when none of them was there, and both locations of every one
  of them have the length \<open>n\<close> of the match.
\<close>

theorem add_edges_from_match_four_edges:
  fixes L R x y n :: int and first_len secnd_len :: nat and g :: graph
  defines "locL \<equiv> SimpleLocation x (x + n) (Some 1)"
      and "locR \<equiv> SimpleLocation y (y + n) (Some 1)"
      and "rcL \<equiv> SimpleLocation (int first_len - (x + n)) (int first_len - x) (Some (- 1))"
      and "rcR \<equiv> SimpleLocation (int secnd_len - (y + n)) (int secnd_len - y) (Some (- 1))"
  defines "e1 \<equiv> (PyInt L, PyInt R, PyStr (edge_name L R (locL, locR)))"
      and "e2 \<equiv> (PyInt R, PyInt L, PyStr (edge_name R L (locR, locL)))"
      and "e3 \<equiv> (PyInt (- L), PyInt (- R), PyStr (edge_name (- L) (- R) (rcL, rcR)))"
      and "e4 \<equiv> (PyInt (- R), PyInt (- L), PyStr (edge_name (- R) (- L) (rcR, rcL)))"
  assumes match: "0 < n" "0 \<le> x" "x + n \<le> int first_len" "0 \<le> y" "y + n \<le> int secnd_len"
      and nodes: "L \<noteq> R" "L \<noteq> - R"
  shows "\<exists>g'. add_edges_from_match (x, y, n) L R first_len secnd_len g = Inr g'
           \<and> map_of (edges g') = (map_of (edges g))
                 (e1 \<mapsto> Some (locL, locR), e2 \<mapsto> Some (locR, locL),
                  e3 \<mapsto> Some (rcL, rcR), e4 \<mapsto> Some (rcR, rcL))
           \<and> set (map fst (edges g')) = set (map fst (edges g)) \<union> {e1, e2, e3, e4}
           \<and> distinct [e1, e2, e3, e4]
           \<and> (set (map fst (edges g)) \<inter> {e1, e2, e3, e4} = {} \<longrightarrow>
                length (edges g') = length (edges g) + 4)
           \<and> rcL = flip locL (int first_len) \<and> rcR = flip locR (int secnd_len)
           \<and> locations g' e1 = Inr (locL, locR) \<and> locations g' e2 = Inr (locR, locL)
           \<and> locations g' e3 = Inr (rcL, rcR) \<and> locations g' e4 = Inr (rcR, rcL)
           \<and> loc_len locL = n \<and> loc_len locR = n \<and> loc_len rcL = n \<and> loc_len rcR = n"
proof -
  define g' where "g' = add_match_edge (- R) (- L) (rcR, rcL)
                     (add_match_edge (- L) (- R) (rcL, rcR)
                     (add_match_edge R L (locR, locL)
                     (add_match_edge L R (locL, locR) g)))"
  have run: "add_edges_from_match (x, y, n) L R first_len secnd_len g = Inr g'"
    using match
    by (simp add: add_edges_from_match_def mk_simple_def shift_location_in_range g'_def
        locL_def locR_def rcL_def rcR_def flip_strand_def)
  have dist: "distinct [e1, e2, e3, e4]"
    using nodes by (auto simp: e1_def e2_def e3_def e4_def)
  have edges: "edges g' = put_edge e4 (Some (rcR, rcL)) (put_edge e3 (Some (rcL, rcR))
                 (put_edge e2 (Some (locR, locL)) (put_edge e1 (Some (locL, locR)) (edges g))))"
    by (simp add: g'_def edges_add_match_edge e1_def e2_def e3_def e4_def)
  have m: "map_of (edges g') = (map_of (edges g))
                 (e1 \<mapsto> Some (locL, locR), e2 \<mapsto> Some (locR, locL),
                  e3 \<mapsto> Some (rcL, rcR), e4 \<mapsto> Some (rcR, rcL))"
    by (simp add: edges map_of_put_edge)
  have s: "set (map fst (edges g')) = set (map fst (edges g)) \<union> {e1, e2, e3, e4}"
    unfolding edges by (auto simp: keys_put_edge split: if_splits)
  have len: "set (map fst (edges g)) \<inter> {e1, e2, e3, e4} = {} \<longrightarrow>
                length (edges g') = length (edges g) + 4"
    using dist unfolding edges by (auto simp: length_put_edge keys_put_edge)
  have fl: "rcL = flip locL (int first_len)" "rcR = flip locR (int secnd_len)"
    by (simp_all add: rcL_def rcR_def locL_def locR_def flip_strand_def)
  have lens: "loc_len locL = n" "loc_len locR = n" "loc_len rcL = n" "loc_len rcR = n"
    by (simp_all add: loc_len_simple locL_def locR_def rcL_def rcR_def)
  have locs: "locations g' e1 = Inr (locL, locR)" "locations g' e2 = Inr (locR, locL)"
    "locations g' e3 = Inr (rcL, rcR)" "locations g' e4 = Inr (rcR, rcL)"
    using dist by (auto simp: locations_def m)
  show ?thesis
    using run m s dist len fl locs lens by blast
qed

theorem add_edges_from_match_four_edges_witness:
  "(0::int) < 6 \<and> (0::int) \<le> 8 \<and> (8::int) + 6 \<le> int 14 \<and> (0::int) \<le> 1 \<and> (1::int) + 6 \<le> int 17
   \<and> (1::int) \<noteq> 2 \<and> (1::int) \<noteq> - 2
   \<and> add_edges_from_match (8, 1, 6) 1 2 14 17 doc_nodes =
       Inr \<lparr>nodes = [(PyInt 1, None), (PyInt 2, None), (PyInt (- 1), None), (PyInt (- 2), None)],
            edges =
              [((PyInt 1, PyInt 2, PyStr ''1[8:14](+):2[1:7](+)''),
                  Some (SimpleLocation 8 14 (Some 1), SimpleLocation 1 7 (Some 1))),
               ((PyInt 2, PyInt 1, PyStr ''2[1:7](+):1[8:14](+)''),
                  Some (SimpleLocation 1 7 (Some 1), SimpleLocation 8 14 (Some 1))),
               ((PyInt (- 1), PyInt (- 2), PyStr ''-1[0:6](-):-2[10:16](-)''),
                  Some (SimpleLocation 0 6 (Some (- 1)), SimpleLocation 10 16 (Some (- 1)))),
               ((PyInt (- 2), PyInt (- 1), PyStr ''-2[10:16](-):-1[0:6](-)''),
                  Some (SimpleLocation 10 16 (Some (- 1)), SimpleLocation 0 6 (Some (- 1))))]\<rparr>
   \<and> loc_len (SimpleLocation 8 14 (Some 1)) = 6 \<and> loc_len (SimpleLocation 1 7 (Some 1)) = 6
   \<and> loc_len (SimpleLocation 0 6 (Some (- 1))) = 6 \<and> loc_len (SimpleLocation 10 16 (Some (- 1))) = 6"
proof -
  have run: "add_edges_from_match (8, 1, 6) 1 2 14 17 doc_nodes =
       Inr \<lparr>nodes = [(PyInt 1, None), (PyInt 2, None), (PyInt (- 1), None), (PyInt (- 2), None)],
            edges =
              [((PyInt 1, PyInt 2, PyStr ''1[8:14](+):2[1:7](+)''),
                  Some (SimpleLocation 8 14 (Some 1), SimpleLocation 1 7 (Some 1))),
               ((PyInt 2, PyInt 1, PyStr ''2[1:7](+):1[8:14](+)''),
                  Some (SimpleLocation 1 7 (Some 1), SimpleLocation 8 14 (Some 1))),
               ((PyInt (- 1), PyInt (- 2), PyStr ''-1[0:6](-):-2[10:16](-)''),
                  Some (SimpleLocation 0 6 (Some (- 1)), SimpleLocation 10 16 (Some (- 1)))),
               ((PyInt (- 2), PyInt (- 1), PyStr ''-2[10:16](-):-1[0:6](-)''),
                  Some (SimpleLocation 10 16 (Some (- 1)), SimpleLocation 0 6 (Some (- 1))))]\<rparr>"
    by code_simp
  have h: "(0::int) < 6" "(0::int) \<le> 8" "(8::int) + 6 \<le> int 14" "(0::int) \<le> 1" "(1::int) + 6 \<le> int 17"
    "(1::int) \<noteq> 2" "(1::int) \<noteq> - 2"
    by simp_all
  have "loc_len (SimpleLocation 8 (8 + 6) (Some 1)) = 6
          \<and> loc_len (SimpleLocation 1 (1 + 6) (Some 1)) = 6
          \<and> loc_len (SimpleLocation (int 14 - (8 + 6)) (int 14 - 8) (Some (- 1))) = 6
          \<and> loc_len (SimpleLocation (int 17 - (1 + 6)) (int 17 - 1) (Some (- 1))) = 6"
    using add_edges_from_match_four_edges
      [where n = 6 and x = 8 and first_len = 14 and y = 1 and secnd_len = 17 and L = 1 and R = 2
         and g = doc_nodes, OF h]
    by blast
  then show ?thesis using run by simp
qed

section \<open>Removing subassemblies\<close>

lemma is_sublist_iff_sublist: "is_sublist sub xs \<longleftrightarrow> sublist sub xs"
proof
  assume "is_sublist sub xs"
  then obtain i where i: "take (length sub) (drop i xs) = sub"
    by (auto simp: is_sublist_def list_ex_iff)
  have "xs = take i xs @ take (length sub) (drop i xs) @ drop (length sub) (drop i xs)"
    by (metis append_take_drop_id)
  then have "xs = take i xs @ sub @ drop (length sub) (drop i xs)" using i by simp
  then show "sublist sub xs" unfolding sublist_def by blast
next
  assume "sublist sub xs"
  then obtain ps ss where xs: "xs = ps @ sub @ ss" unfolding sublist_def by blast
  have "take (length sub) (drop (length ps) xs) = sub" by (simp add: xs)
  moreover have "length ps < nat (int (length xs) - int (length sub) + 1)" by (simp add: xs)
  ultimately show "is_sublist sub xs"
    unfolding is_sublist_def list_ex_iff by (metis atLeastLessThan_iff le0 set_upt)
qed

lemma is_sublist_refl: "is_sublist xs xs"
  by (simp add: is_sublist_iff_sublist)

lemma sublist_same_length: "sublist xs ys \<Longrightarrow> length xs = length ys \<Longrightarrow> xs = ys"
  by (auto simp: sublist_def)

lemma fold_keep_step_sorted:
  assumes "sorted_wrt longer_not_containing acc"
      and "\<forall>x \<in> set acc. \<forall>y \<in> set ys. length y \<le> length x"
      and "sorted_wrt (\<lambda>a b. length b \<le> length a) ys"
  shows "sorted_wrt longer_not_containing (fold keep_step ys acc)"
  using assms
proof (induction ys arbitrary: acc)
  case Nil
  then show ?case by simp
next
  case (Cons y ys)
  show ?case
  proof (cases "list_ex (is_sublist y) acc")
    case True
    then have "keep_step y acc = acc" by (simp add: keep_step_def)
    then show ?thesis using Cons by simp
  next
    case False
    then have k: "keep_step y acc = acc @ [y]" by (simp add: keep_step_def)
    have "\<forall>x \<in> set acc. longer_not_containing x y"
      using False Cons.prems(2) by (auto simp: longer_not_containing_def list_ex_iff is_sublist_iff_sublist)
    then have 1: "sorted_wrt longer_not_containing (acc @ [y])"
      using Cons.prems(1) by (simp add: sorted_wrt_append)
    have 2: "\<forall>x \<in> set (acc @ [y]). \<forall>z \<in> set ys. length z \<le> length x"
      using Cons.prems(2,3) by auto
    have 3: "sorted_wrt (\<lambda>a b. length b \<le> length a) ys" using Cons.prems(3) by simp
    show ?thesis using Cons.IH [OF 1 2 3] by (simp add: k)
  qed
qed

lemma fold_keep_step_set: "set (fold keep_step ys acc) \<subseteq> set acc \<union> set ys"
  by (induction ys arbitrary: acc) (fastforce simp: keep_step_def split: if_splits)+

lemma remove_subassemblies_fold:
  "remove_subassemblies xs = fold keep_step (sort_key (\<lambda>a. - int (length a)) xs) []"
  unfolding remove_subassemblies_def keep_step_def ..

lemma remove_subassemblies_sorted: "sorted_wrt longer_not_containing (remove_subassemblies xs)"
proof -
  have "sorted (map (\<lambda>a. - int (length a)) (sort_key (\<lambda>a. - int (length a)) xs))"
    by (rule sorted_sort_key)
  then have "sorted_wrt (\<lambda>a b. length b \<le> length a) (sort_key (\<lambda>a. - int (length a)) xs)"
    by (simp add: sorted_wrt_map)
  then show ?thesis
    unfolding remove_subassemblies_fold by (intro fold_keep_step_sorted) simp_all
qed

lemma remove_subassemblies_subset: "set (remove_subassemblies xs) \<subseteq> set xs"
  using fold_keep_step_set [of "sort_key (\<lambda>a. - int (length a)) xs" "[]"]
  by (simp add: remove_subassemblies_fold)

lemma remove_subassemblies_no_sublist:
  assumes "i < length (remove_subassemblies xs)" "j < length (remove_subassemblies xs)" "i \<noteq> j"
  shows "\<not> sublist (remove_subassemblies xs ! i) (remove_subassemblies xs ! j)"
proof -
  let ?r = "remove_subassemblies xs"
  have s: "\<And>a b. a < b \<Longrightarrow> b < length ?r \<Longrightarrow> longer_not_containing (?r ! a) (?r ! b)"
    using remove_subassemblies_sorted [of xs] by (simp add: sorted_wrt_iff_nth_less)
  show ?thesis
  proof (cases "i < j")
    case True
    from s [OF True assms(2)] have l: "length (?r ! j) \<le> length (?r ! i)" and n: "\<not> sublist (?r ! j) (?r ! i)"
      by (simp_all add: longer_not_containing_def)
    show ?thesis
    proof
      assume a: "sublist (?r ! i) (?r ! j)"
      then have "length (?r ! i) \<le> length (?r ! j)" by (rule sublist_length_le)
      with l have "length (?r ! i) = length (?r ! j)" by simp
      with a have "?r ! i = ?r ! j" by (rule sublist_same_length)
      with n show False by simp
    qed
  next
    case False
    then have "j < i" using assms(3) by simp
    from s [OF this assms(1)] show ?thesis by (simp add: longer_not_containing_def)
  qed
qed

lemma remove_subassemblies_distinct: "distinct (remove_subassemblies xs)"
  unfolding distinct_conv_nth
proof (intro allI impI)
  fix i j assume "i < length (remove_subassemblies xs)" "j < length (remove_subassemblies xs)" "i \<noteq> j"
  from remove_subassemblies_no_sublist [OF this]
  show "remove_subassemblies xs ! i \<noteq> remove_subassemblies xs ! j" by auto
qed

section \<open>The store is only extended\<close>

lemma heap_extends_refl: "heap_extends h h"
  by (simp add: heap_extends_def)

lemma heap_extends_trans: "heap_extends h1 h2 \<Longrightarrow> heap_extends h2 h3 \<Longrightarrow> heap_extends h1 h3"
  by (auto simp: heap_extends_def)

lemma heap_extends_graph: "heap_extends h h' \<Longrightarrow> a < length (graphs h) \<Longrightarrow> graphs h' ! a = graphs h ! a"
  by (auto simp: heap_extends_def prefix_def nth_append)

lemma heap_extends_feat: "heap_extends h h' \<Longrightarrow> a < length (feats h) \<Longrightarrow> feats h' ! a = feats h ! a"
  by (auto simp: heap_extends_def prefix_def nth_append)

lemma heap_extends_self_G: "heap_extends h h' \<Longrightarrow> G self < length (graphs h) \<Longrightarrow> self_G self h' = self_G self h"
  by (simp add: self_G_def heap_extends_graph)

lemma prefix_update_graph:
  "prefix xs (graphs h) \<Longrightarrow> length xs \<le> a \<Longrightarrow> prefix xs (graphs (update_graph a f h))"
  by (auto simp: update_graph_def prefix_def list_update_append)

lemma feats_update_graph: "feats (update_graph a f h) = feats h"
  by (simp add: update_graph_def)

lemma fold_update_graph:
  "prefix xs (graphs h) \<Longrightarrow> length xs \<le> a \<Longrightarrow>
   prefix xs (graphs (fold (\<lambda>node. update_graph a (F node)) ns h))
   \<and> feats (fold (\<lambda>node. update_graph a (F node)) ns h) = feats h"
  by (induction ns arbitrary: h) (simp_all add: prefix_update_graph feats_update_graph)

lemma get_linear_assemblies_unfold:
  "\<exists>g h3. heap_extends h h3 \<and>
     get_linear_assemblies paths self h =
       (case filter_err (validate_assembly self h3)
                (map (\<lambda>x. butlast (tl x)) (paths (graphs h3 ! g) begin_node end_node)) of
            Inl e \<Rightarrow> (Inl e, h3)
          | Inr assemblies \<Rightarrow> (Inr (remove_subassemblies assemblies), h3))"
proof -
  define g where "g = length (graphs h)"
  define h1 where "h1 = h\<lparr>graphs := graphs h @ [graphs h ! G self]\<rparr>"
  define h2 where "h2 = update_graph g (add_node end_node) (update_graph g (add_node begin_node) h1)"
  define h3 where "h3 = (if use_fragment_order self
                then update_graph g (add_edge (PyInt (- int (length (fragments self)))) end_node None None)
                    (update_graph g (add_edge (PyInt (int (length (fragments self)))) end_node None None)
                    (update_graph g (add_edge begin_node (PyInt (- 1)) None None)
                    (update_graph g (add_edge begin_node (PyInt 1) None None) h2)))
                else fold (\<lambda>node. update_graph g (anchor_node self node))
                       (filter is_int (map fst (nodes (graphs h2 ! g)))) h2)"
  have p1: "prefix (graphs h) (graphs h1)" "feats h1 = feats h" by (simp_all add: h1_def)
  have p2: "prefix (graphs h) (graphs h2)" "feats h2 = feats h"
    using p1 by (simp_all add: h2_def prefix_update_graph feats_update_graph g_def)
  have p3: "prefix (graphs h) (graphs h3)" "feats h3 = feats h"
    using p2 fold_update_graph [of "graphs h" h2 g "anchor_node self"]
    by (simp_all add: h3_def prefix_update_graph feats_update_graph g_def)
  have "heap_extends h h3" using p3 by (simp add: heap_extends_def)
  moreover have "get_linear_assemblies paths self h =
       (case filter_err (validate_assembly self h3)
                (map (\<lambda>x. butlast (tl x)) (paths (graphs h3 ! g) begin_node end_node)) of
            Inl e \<Rightarrow> (Inl e, h3)
          | Inr assemblies \<Rightarrow> (Inr (remove_subassemblies assemblies), h3))"
    unfolding get_linear_assemblies_def copy_graph_def Let_def prod.case h3_def h2_def h1_def g_def
    by (rule refl)
  ultimately show ?thesis by blast
qed

lemma filter_err_Inr: "filter_err p xs = Inr ys \<Longrightarrow> ys = filter (\<lambda>x. p x = Inr True) xs"
  by (induction xs arbitrary: ys) (auto split: sum.splits if_splits)

lemma get_linear_assemblies_result:
  assumes "get_linear_assemblies paths self h = (Inr res, h')"
  shows "heap_extends h h'"
    and "\<exists>cands. res = remove_subassemblies (filter (\<lambda>x. validate_assembly self h' x = Inr True) cands)"
proof -
  obtain g h3 where e: "heap_extends h h3" and r: "get_linear_assemblies paths self h =
       (case filter_err (validate_assembly self h3)
                (map (\<lambda>x. butlast (tl x)) (paths (graphs h3 ! g) begin_node end_node)) of
            Inl e \<Rightarrow> (Inl e, h3)
          | Inr assemblies \<Rightarrow> (Inr (remove_subassemblies assemblies), h3))"
    using get_linear_assemblies_unfold by blast
  from r assms obtain xs where xs: "filter_err (validate_assembly self h3)
                (map (\<lambda>x. butlast (tl x)) (paths (graphs h3 ! g) begin_node end_node)) = Inr xs"
    and res: "res = remove_subassemblies xs" and h': "h' = h3"
    by (auto split: sum.splits)
  show "heap_extends h h'" using e h' by simp
  show "\<exists>cands. res = remove_subassemblies (filter (\<lambda>x. validate_assembly self h' x = Inr True) cands)"
    using filter_err_Inr [OF xs] res h' by blast
qed

lemma get_linear_assemblies_heap: "heap_extends h (snd (get_linear_assemblies paths self h))"
proof -
  obtain g h3 where e: "heap_extends h h3" and r: "get_linear_assemblies paths self h =
       (case filter_err (validate_assembly self h3)
                (map (\<lambda>x. butlast (tl x)) (paths (graphs h3 ! g) begin_node end_node)) of
            Inl e \<Rightarrow> (Inl e, h3)
          | Inr assemblies \<Rightarrow> (Inr (remove_subassemblies assemblies), h3))"
    using get_linear_assemblies_unfold by blast
  show ?thesis using e by (simp add: r split: sum.splits)
qed

lemma validate_assembly_extends:
  "heap_extends h h' \<Longrightarrow> G self < length (graphs h) \<Longrightarrow> validate_assembly self h' a = validate_assembly self h a"
  by (simp add: validate_assembly_def heap_extends_self_G)

text \<open>
  C3. Every assembly returned by \<open>get_linear_assemblies\<close> and by
  \<open>get_circular_assemblies\<close> passes \<open>validate_assembly\<close>, and of two assemblies at different
  places of the list \<open>get_linear_assemblies\<close> returns, neither is a contiguous sub-sequence
  of the other. It holds whatever the two enumerators return.
\<close>

theorem returned_assemblies_valid_and_not_contained:
  assumes "G self < length (graphs h)"
  shows "(\<forall>res h'. get_linear_assemblies paths self h = (Inr res, h') \<longrightarrow>
            (\<forall>a \<in> set res. validate_assembly self h a = Inr True) \<and>
            (\<forall>i < length res. \<forall>j < length res. i \<noteq> j \<longrightarrow> \<not> is_sublist (res ! i) (res ! j)))
       \<and> (\<forall>res. get_circular_assemblies cycles self h = Inr res \<longrightarrow>
            (\<forall>a \<in> set res. validate_assembly self h a = Inr True))"
proof -
  have lin: "(\<forall>a \<in> set res. validate_assembly self h a = Inr True) \<and>
            (\<forall>i < length res. \<forall>j < length res. i \<noteq> j \<longrightarrow> \<not> is_sublist (res ! i) (res ! j))"
    if r: "get_linear_assemblies paths self h = (Inr res, h')" for res h'
  proof -
    from get_linear_assemblies_result [OF r] obtain cands where
      e: "heap_extends h h'"
      and res: "res = remove_subassemblies (filter (\<lambda>x. validate_assembly self h' x = Inr True) cands)"
      by blast
    have "validate_assembly self h a = Inr True" if "a \<in> set res" for a
    proof -
      from that have "a \<in> set (filter (\<lambda>x. validate_assembly self h' x = Inr True) cands)"
        using remove_subassemblies_subset res by blast
      then have "validate_assembly self h' a = Inr True" by simp
      then show ?thesis using validate_assembly_extends [OF e assms] by simp
    qed
    moreover have "\<not> is_sublist (res ! i) (res ! j)" if "i < length res" "j < length res" "i \<noteq> j" for i j
      using remove_subassemblies_no_sublist that unfolding res is_sublist_iff_sublist by blast
    ultimately show ?thesis by blast
  qed
  have circ: "\<forall>a \<in> set res. validate_assembly self h a = Inr True"
    if r: "get_circular_assemblies cycles self h = Inr res" for res
  proof -
    from r obtain cands where "filter_err (validate_assembly self h) cands = Inr res"
      by (auto simp: get_circular_assemblies_def split: sum.splits)
    from filter_err_Inr [OF this] show ?thesis by simp
  qed
  show ?thesis using lin circ by blast
qed

theorem returned_assemblies_valid_and_not_contained_witness:
  "G example_asm < length (graphs example_heap)
   \<and> fst (get_linear_assemblies dfs_simple_edge_paths example_asm example_heap) =
       Inr [[e12, e23], [e23, e31], [e31, e12], [e13], [e21], [e32]]
   \<and> validate_assembly example_asm example_heap [e12, e23] = Inr True
   \<and> validate_assembly example_asm example_heap [e13] = Inr True
   \<and> \<not> is_sublist [e13] [e12, e23] \<and> \<not> is_sublist [e12, e23] [e23, e31]
   \<and> get_circular_assemblies dfs_simple_cycles example_asm example_heap = Inr [[e12, e23, e31]]
   \<and> validate_assembly example_asm example_heap [e12, e23, e31] = Inr True"
proof -
  let ?res = "[[e12, e23], [e23, e31], [e31, e12], [e13], [e21], [e32]]"
  have g: "G example_asm < length (graphs example_heap)"
    by (simp add: example_asm_def example_heap_def)
  have l: "fst (get_linear_assemblies dfs_simple_edge_paths example_asm example_heap) = Inr ?res"
    by code_simp
  have c: "get_circular_assemblies dfs_simple_cycles example_asm example_heap = Inr [[e12, e23, e31]]"
    by code_simp
  obtain h' where r: "get_linear_assemblies dfs_simple_edge_paths example_asm example_heap = (Inr ?res, h')"
    using l by (cases "get_linear_assemblies dfs_simple_edge_paths example_asm example_heap") auto
  note t = returned_assemblies_valid_and_not_contained
             [OF g, where paths = dfs_simple_edge_paths and cycles = dfs_simple_cycles]
  from t r have v: "\<forall>a \<in> set ?res. validate_assembly example_asm example_heap a = Inr True"
    and n: "\<forall>i < length ?res. \<forall>j < length ?res. i \<noteq> j \<longrightarrow> \<not> is_sublist (?res ! i) (?res ! j)"
    by blast+
  from t c have vc: "\<forall>a \<in> set [[e12, e23, e31]]. validate_assembly example_asm example_heap a = Inr True"
    by blast
  have n1: "\<not> is_sublist [e13] [e12, e23]" using n [rule_format, of 3 0] by simp
  have n2: "\<not> is_sublist [e12, e23] [e23, e31]" using n [rule_format, of 0 1] by simp
  show ?thesis using g l c v vc n1 n2 by simp
qed

text \<open>
  C10. The assemblies \<open>get_linear_assemblies\<close> returns are pairwise distinct:
  \<open>is_sublist\<close> holds for a list and itself, so \<open>remove_subassemblies\<close> never appends a
  candidate equal to one it has kept, and its result has no duplicates.
\<close>

theorem linear_assemblies_distinct:
  "is_sublist a a \<and> distinct (remove_subassemblies xs)
   \<and> (\<forall>res h'. get_linear_assemblies paths self h = (Inr res, h') \<longrightarrow> distinct res)"
  using get_linear_assemblies_result(2) remove_subassemblies_distinct is_sublist_refl by metis

theorem linear_assemblies_distinct_witness:
  "is_sublist [e12] [e12] \<and> remove_subassemblies [[e12], [e12, e23], [e12]] = [[e12, e23]]
   \<and> remove_subassemblies [[e13], [e13]] = [[e13]]
   \<and> fst (get_linear_assemblies dfs_simple_edge_paths example_asm example_heap) =
       Inr [[e12, e23], [e23, e31], [e31, e12], [e13], [e21], [e32]]
   \<and> distinct [[e12, e23], [e23, e31], [e31, e12], [e13], [e21], [e32]]"
proof -
  let ?res = "[[e12, e23], [e23, e31], [e31, e12], [e13], [e21], [e32]]"
  have l: "fst (get_linear_assemblies dfs_simple_edge_paths example_asm example_heap) = Inr ?res"
    by code_simp
  obtain h' where r: "get_linear_assemblies dfs_simple_edge_paths example_asm example_heap = (Inr ?res, h')"
    using l by (cases "get_linear_assemblies dfs_simple_edge_paths example_asm example_heap") auto
  note t = linear_assemblies_distinct
             [where a = "[e12]" and xs = "[[e13], [e13]]" and paths = dfs_simple_edge_paths
                and self = example_asm and h = example_heap]
  from t r have d: "distinct ?res" by blast
  from t have s: "is_sublist [e12] [e12]" by blast
  have r1: "remove_subassemblies [[e12], [e12, e23], [e12]] = [[e12, e23]]" by code_simp
  have r2: "remove_subassemblies [[e13], [e13]] = [[e13]]" by code_simp
  show ?thesis using l d s r1 r2 by simp
qed

section \<open>Validation\<close>

lemma check_edge_pairs_Inr:
  "check_edge_pairs g ps = Inr b \<Longrightarrow> b = (\<forall>p \<in> set ps. ordered_overlaps g (fst p) (snd p))"
proof (induction ps arbitrary: b)
  case Nil
  then show ?case by simp
next
  case (Cons p ps)
  obtain e1 e2 where p: "p = (e1, e2)" by (cases p)
  show ?case using Cons
    by (auto simp: p ordered_overlaps_def split: sum.splits if_splits)
qed

lemma check_edge_pairs_total:
  "\<forall>p \<in> set ps. (\<exists>l. locations g (fst p) = Inr l) \<and> (\<exists>r. locations g (snd p) = Inr r)
   \<Longrightarrow> \<exists>b. check_edge_pairs g ps = Inr b"
proof (induction ps)
  case Nil
  then show ?case by auto
next
  case (Cons p ps)
  obtain e1 e2 where p: "p = (e1, e2)" by (cases p)
  from Cons.prems obtain l r where l: "locations g e1 = Inr l" and r: "locations g e2 = Inr r"
    by (auto simp: p)
  from Cons obtain b where b: "check_edge_pairs g ps = Inr b" by auto
  show ?case
    by (cases "part_end (hd (parts (fst r))) \<le> part_end (last (parts (snd l)))")
       (auto simp: p l r b)
qed

lemma set_zip_tl:
  "set (zip xs (tl xs)) = {(xs ! k, xs ! Suc k) | k. Suc k < length xs}"
proof -
  have "set (zip xs (tl xs)) = {(xs ! k, tl xs ! k) | k. k < min (length xs) (length (tl xs))}"
    by (rule set_zip)
  also have "\<dots> = {(xs ! k, xs ! Suc k) | k. Suc k < length xs}"
    by (cases xs) (auto simp: nth_tl)
  finally show ?thesis .
qed

lemma zip_rotate:
  "zip (x # ys) (ys @ [z]) = zip (x # ys) ys @ [(last (x # ys), z)]"
  by (induction ys arbitrary: x) simp_all

lemma zip_wrap:
  assumes "xs \<noteq> []"
  shows "zip xs (tl xs @ take (Suc 0) xs) = zip xs (tl xs) @ [(last xs, hd xs)]"
proof -
  obtain x ys where xs: "xs = x # ys" using assms by (cases xs) auto
  show ?thesis unfolding xs using zip_rotate [of x ys x] by simp
qed

lemma set_edge_pairs_of:
  assumes "a \<noteq> []"
  shows "set (edge_pairs_of a) =
           {(a ! k, a ! Suc k) | k. Suc k < length a} \<union> (if is_circular a then {(last a, hd a)} else {})"
  using assms by (simp add: edge_pairs_of_def zip_wrap set_zip_tl Un_commute)

text \<open>
  C2. For a non-empty candidate whose edges are in the graph and that passes the test on
  the number of edges, \<open>validate_assembly\<close> returns \<open>True\<close> exactly when for every two
  consecutive edges, and for the last and the first edge of a circular candidate, the end of
  the last part of the first edge's location on the shared fragment is strictly less than
  the end of the first part of the second edge's location on it; otherwise it returns
  \<open>False\<close>.
\<close>

theorem validate_assembly_ordering:
  assumes "a \<noteq> []"
      and "\<forall>e \<in> set a. \<exists>l. locations (self_G self h) e = Inr l"
      and "use_all_fragments self \<longrightarrow> edge_count_ok self a"
  shows "validate_assembly self h a =
           Inr ((\<forall>k. Suc k < length a \<longrightarrow> ordered_overlaps (self_G self h) (a ! k) (a ! Suc k))
                \<and> (is_circular a \<longrightarrow> ordered_overlaps (self_G self h) (last a) (hd a)))"
proof -
  have v: "validate_assembly self h a = check_edge_pairs (self_G self h) (edge_pairs_of a)"
    using assms(1,3) by (auto simp: validate_assembly_def edge_count_ok_def)
  have "\<forall>p \<in> set (edge_pairs_of a). fst p \<in> set a \<and> snd p \<in> set a"
    using assms(1) by (auto simp: set_edge_pairs_of)
  then have "\<forall>p \<in> set (edge_pairs_of a). (\<exists>l. locations (self_G self h) (fst p) = Inr l)
                \<and> (\<exists>r. locations (self_G self h) (snd p) = Inr r)"
    using assms(2) by blast
  from check_edge_pairs_total [OF this] obtain b where
    b: "check_edge_pairs (self_G self h) (edge_pairs_of a) = Inr b" by blast
  have "b = (\<forall>p \<in> set (edge_pairs_of a). ordered_overlaps (self_G self h) (fst p) (snd p))"
    using check_edge_pairs_Inr [OF b] .
  also have "\<dots> = ((\<forall>k. Suc k < length a \<longrightarrow> ordered_overlaps (self_G self h) (a ! k) (a ! Suc k))
                \<and> (is_circular a \<longrightarrow> ordered_overlaps (self_G self h) (last a) (hd a)))"
    (is "?lhs = ?rhs")
  proof
    assume l: ?lhs
    have "ordered_overlaps (self_G self h) (a ! k) (a ! Suc k)" if "Suc k < length a" for k
    proof -
      have "(a ! k, a ! Suc k) \<in> set (edge_pairs_of a)"
        using that unfolding set_edge_pairs_of [OF assms(1)] by blast
      with l show ?thesis by fastforce
    qed
    moreover have "ordered_overlaps (self_G self h) (last a) (hd a)" if "is_circular a"
    proof -
      have "(last a, hd a) \<in> set (edge_pairs_of a)"
        using that unfolding set_edge_pairs_of [OF assms(1)] by simp
      with l show ?thesis by fastforce
    qed
    ultimately show ?rhs by blast
  next
    assume r: ?rhs
    show ?lhs
    proof
      fix p assume "p \<in> set (edge_pairs_of a)"
      then consider k where "Suc k < length a" "p = (a ! k, a ! Suc k)" | "is_circular a" "p = (last a, hd a)"
        unfolding set_edge_pairs_of [OF assms(1)] by (auto split: if_splits)
      then show "ordered_overlaps (self_G self h) (fst p) (snd p)"
        using r by cases auto
    qed
  qed
  finally show ?thesis using v b by simp
qed

text \<open>
  The examples: the edges of the example graph have their locations.
\<close>

lemma example_self_G: "self_G example_asm example_heap = example_graph"
  by (simp add: self_G_def example_asm_def example_heap_def)

lemma example_locations:
  "locations example_graph e12 = Inr (SimpleLocation 8 14 (Some 1), SimpleLocation 1 7 (Some 1))"
  "locations example_graph e23 = Inr (SimpleLocation 10 17 (Some 1), SimpleLocation 1 8 (Some 1))"
  "locations example_graph e31 = Inr (SimpleLocation 12 17 (Some 1), SimpleLocation 1 6 (Some 1))"
  "locations example_graph e13 = Inr (SimpleLocation 1 6 (Some 1), SimpleLocation 12 17 (Some 1))"
  "locations example_graph e32 = Inr (SimpleLocation 1 8 (Some 1), SimpleLocation 10 17 (Some 1))"
  by code_simp+

theorem validate_assembly_ordering_witness:
  "[e12, e23] \<noteq> []
   \<and> locations (self_G example_asm example_heap) e12 = Inr (SimpleLocation 8 14 (Some 1), SimpleLocation 1 7 (Some 1))
   \<and> locations (self_G example_asm example_heap) e23 = Inr (SimpleLocation 10 17 (Some 1), SimpleLocation 1 8 (Some 1))
   \<and> \<not> use_all_fragments example_asm
   \<and> ordered_overlaps (self_G example_asm example_heap) e12 e23
   \<and> validate_assembly example_asm example_heap [e12, e23] = Inr True
   \<and> \<not> ordered_overlaps (self_G example_asm example_heap) e13 e32
   \<and> validate_assembly example_asm example_heap [e13, e32] = Inr False"
proof -
  have u: "use_all_fragments example_asm \<longrightarrow> edge_count_ok example_asm a" for a
    by (simp add: example_asm_def)
  have l1: "\<forall>e \<in> set [e12, e23]. \<exists>l. locations (self_G example_asm example_heap) e = Inr l"
    by (simp add: example_self_G example_locations)
  have l2: "\<forall>e \<in> set [e13, e32]. \<exists>l. locations (self_G example_asm example_heap) e = Inr l"
    by (simp add: example_self_G example_locations)
  have o1: "ordered_overlaps (self_G example_asm example_heap) e12 e23"
    by (simp add: example_self_G ordered_overlaps_def example_locations part_end_def)
  have o2: "\<not> ordered_overlaps (self_G example_asm example_heap) e13 e32"
    by (simp add: example_self_G ordered_overlaps_def example_locations part_end_def)
  have n: "\<not> is_circular [e12, e23]" "\<not> is_circular [e13, e32]"
    by (simp_all add: is_circular_def e12_def e23_def e13_def e32_def edge_u_def edge_v_def)
  have k: "(\<forall>k. Suc k < length [x, y] \<longrightarrow> P ([x, y] ! k) ([x, y] ! Suc k)) = P x y"
    for x y :: edge and P by (auto simp: less_Suc_eq)
  have v1: "validate_assembly example_asm example_heap [e12, e23] = Inr True"
    using validate_assembly_ordering [OF _ l1 u] o1 n(1) by (simp only: k) simp
  have v2: "validate_assembly example_asm example_heap [e13, e32] = Inr False"
    using validate_assembly_ordering [OF _ l2 u] o2 n(2) by (simp only: k) simp
  have nu: "\<not> use_all_fragments example_asm" by (simp add: example_asm_def)
  have la: "locations (self_G example_asm example_heap) e12 =
      Inr (SimpleLocation 8 14 (Some 1), SimpleLocation 1 7 (Some 1))"
    and lb: "locations (self_G example_asm example_heap) e23 =
      Inr (SimpleLocation 10 17 (Some 1), SimpleLocation 1 8 (Some 1))"
    by (simp_all add: example_self_G example_locations)
  show ?thesis using o1 o2 v1 v2 nu la lb by simp
qed

text \<open>
  With \<open>use_all_fragments\<close> the test of \<open>validate_assembly\<close> is on the number of edges: a
  non-empty candidate is accepted only if its number of edges, minus one when it is circular,
  is \<open>len(fragments) - 1\<close>, and every candidate with another number of edges is rejected.
\<close>

lemma validate_assembly_counts_edges:
  assumes "use_all_fragments self" and "a \<noteq> []"
  shows "validate_assembly self h a = Inr True \<Longrightarrow>
           int (length a) - (if is_circular a then 1 else 0) = int (length (fragments self)) - 1"
    and "int (length a) - (if is_circular a then 1 else 0) \<noteq> int (length (fragments self)) - 1 \<Longrightarrow>
           validate_assembly self h a = Inr False"
  using assms by (auto simp: validate_assembly_def split: if_splits)

text \<open>
  C6. The count of edges does not say which fragments are used. On the second example, three
  fragments with \<open>use_all_fragments\<close>, \<open>validate_assembly\<close> accepts the candidate
  \<open>1 \<rightarrow> 2 \<rightarrow> -1\<close>: it has \<open>len(fragments) - 1\<close> edges, it passes through fragment 1 in both
  orientations and it does not use fragment 3. \<open>get_linear_assemblies\<close> returns it, and
  \<open>assemble\<close> joins it into a sequence without fragment 3.
\<close>

theorem validate_assembly_accepts_unused_fragment:
  "add_matches turn_matches turn_nodes = Inr turn_graph
   \<and> use_all_fragments turn_asm_all
   \<and> length (fragments turn_asm_all) = 3
   \<and> validate_assembly turn_asm_all turn_heap [u12, u2n1] = Inr True
   \<and> visited_fragments [u12, u2n1] = [1, 2, 1]
   \<and> fst (get_linear_assemblies dfs_simple_edge_paths turn_asm_all turn_heap)
       = Inr [[u12, u2n1], [u1n2, un2n1], [u21, u1n2], [u2n1, un1n2],
              [u2n1, un1n3], [u2n1, un13], [u31, u12], [u31, u1n2]]
   \<and> fst (assemble turn_asm_all [u12, u2n1] turn_heap)
       = Inr \<lparr>seq = ''CCGTAGTTCGCAGATTCAttTCCAGTTGAATCTGCGAACTACGG'', features = [], circular = False\<rparr>"
proof -
  have 1: "add_matches turn_matches turn_nodes = Inr turn_graph" by code_simp
  have 2: "use_all_fragments turn_asm_all" by code_simp
  have 3: "length (fragments turn_asm_all) = 3" by code_simp
  have 4: "validate_assembly turn_asm_all turn_heap [u12, u2n1] = Inr True" by code_simp
  have 5: "visited_fragments [u12, u2n1] = [1, 2, 1]" by code_simp
  have 6: "fst (get_linear_assemblies dfs_simple_edge_paths turn_asm_all turn_heap)
       = Inr [[u12, u2n1], [u1n2, un2n1], [u21, u1n2], [u2n1, un1n2],
              [u2n1, un1n3], [u2n1, un13], [u31, u12], [u31, u1n2]]" by code_simp
  have 7: "fst (assemble turn_asm_all [u12, u2n1] turn_heap)
       = Inr \<lparr>seq = ''CCGTAGTTCGCAGATTCAttTCCAGTTGAATCTGCGAACTACGG'', features = [], circular = False\<rparr>"
    by code_simp
  show ?thesis using 1 2 3 4 5 6 7 by (intro conjI)
qed

text \<open>
  C9, as the claim states it, fails: on a candidate with two edges that are not in the
  graph, \<open>validate_assembly\<close> raises \<open>KeyError\<close>.
\<close>

theorem validate_assembly_raises:
  "validate_assembly example_asm example_heap
     [(PyInt 1, PyInt 2, PyStr ''x''), (PyInt 2, PyInt 3, PyStr ''y'')] = Inl KeyError"
  by code_simp

text \<open>
  C9, amended. For every candidate whose edges are edges of the stored graph with their
  locations, \<open>validate_assembly\<close> returns a boolean; and for every list of candidates
  \<open>remove_subassemblies\<close> returns candidates of the list, in the order of decreasing length.
\<close>

theorem validate_assembly_total_on_graph_edges:
  assumes "\<forall>e \<in> set a. \<exists>l. locations (self_G self h) e = Inr l"
  shows "(\<exists>b. validate_assembly self h a = Inr b)
         \<and> subseq (remove_subassemblies xs) (sort_key (\<lambda>c. - int (length c)) xs)"
proof -
  have "\<exists>b. validate_assembly self h a = Inr b"
  proof (cases "a = []")
    case True
    then show ?thesis by (auto simp: validate_assembly_def)
  next
    case False
    have "\<forall>p \<in> set (edge_pairs_of a). fst p \<in> set a \<and> snd p \<in> set a"
      using False by (auto simp: set_edge_pairs_of)
    then have "\<forall>p \<in> set (edge_pairs_of a). (\<exists>l. locations (self_G self h) (fst p) = Inr l)
                \<and> (\<exists>r. locations (self_G self h) (snd p) = Inr r)"
      using assms by blast
    from check_edge_pairs_total [OF this] show ?thesis
      by (auto simp: validate_assembly_def)
  qed
  moreover have "subseq (fold keep_step ys acc) (acc @ ys)" for ys acc :: "'b list list"
  proof (induction ys arbitrary: acc)
    case Nil
    show ?case by simp
  next
    case (Cons y ys)
    show ?case
    proof (cases "list_ex (is_sublist y) acc")
      case True
      then have "fold keep_step (y # ys) acc = fold keep_step ys acc" by (simp add: keep_step_def)
      moreover have "subseq ys (y # ys)"
        by (rule list_emb_Cons) (rule subseq_order.order_refl)
      then have "subseq (acc @ ys) (acc @ y # ys)"
        by (rule list_emb_append_mono [OF subseq_order.order_refl])
      ultimately show ?thesis using Cons [of acc] by (metis subseq_order.order_trans)
    next
      case False
      then have "fold keep_step (y # ys) acc = fold keep_step ys (acc @ [y])" by (simp add: keep_step_def)
      then show ?thesis using Cons [of "acc @ [y]"] by simp
    qed
  qed
  ultimately show ?thesis
    unfolding remove_subassemblies_fold by (metis append_Nil)
qed

theorem validate_assembly_total_on_graph_edges_witness:
  "locations (self_G example_asm example_heap) e12 = Inr (SimpleLocation 8 14 (Some 1), SimpleLocation 1 7 (Some 1))
   \<and> locations (self_G example_asm example_heap) e21 = Inr (SimpleLocation 1 7 (Some 1), SimpleLocation 8 14 (Some 1))
   \<and> (\<exists>b. validate_assembly example_asm example_heap [e12, e21] = Inr b)
   \<and> validate_assembly example_asm example_heap [e12, e21] = Inr False
   \<and> subseq (remove_subassemblies [[e12], [e12, e23]]) [[e12, e23], [e12]]
   \<and> remove_subassemblies [[e12], [e12, e23]] = [[e12, e23]]"
proof -
  have l: "locations (self_G example_asm example_heap) e12 = Inr (SimpleLocation 8 14 (Some 1), SimpleLocation 1 7 (Some 1))"
    "locations (self_G example_asm example_heap) e21 = Inr (SimpleLocation 1 7 (Some 1), SimpleLocation 8 14 (Some 1))"
    by code_simp+
  have h: "\<forall>e \<in> set [e12, e21]. \<exists>l. locations (self_G example_asm example_heap) e = Inr l"
    by (simp add: l)
  have s: "sort_key (\<lambda>c. - int (length c)) [[e12], [e12, e23]] = [[e12, e23], [e12]]" by simp
  note t = validate_assembly_total_on_graph_edges [OF h, where xs = "[[e12], [e12, e23]]"]
  from t have 1: "\<exists>b. validate_assembly example_asm example_heap [e12, e21] = Inr b" by blast
  from t have 2: "subseq (remove_subassemblies [[e12], [e12, e23]]) [[e12, e23], [e12]]"
    unfolding s by blast
  have 3: "validate_assembly example_asm example_heap [e12, e21] = Inr False" by code_simp
  have 4: "remove_subassemblies [[e12], [e12, e23]] = [[e12, e23]]" by code_simp
  show ?thesis using l 1 2 3 4 by simp
qed

section \<open>Circular assemblies\<close>




















section \<open>The length of an assembled sequence\<close>

lemma slice_bound_le: "slice_bound n i \<le> n"
  by (auto simp: slice_bound_def max_def)

lemma slice_hi_le: "slice_hi n stop \<le> n"
  by (simp add: slice_hi_def slice_bound_le split: option.splits)

lemma length_py_slice:
  "length (py_slice xs start stop) = slice_hi (length xs) stop - slice_lo (length xs) start"
  using slice_hi_le [of "length xs" stop] by (simp add: py_slice_def)

lemma length_py_slice_range:
  assumes "0 \<le> s" "s \<le> e" "e \<le> int (length xs)"
  shows "int (length (py_slice xs (Some s) (Some e))) = e - s"
    and "int (length (py_slice xs (Some s) None)) = int (length xs) - s"
  using assms by (simp_all add: length_py_slice slice_hi_def slice_lo_def slice_bound_def)

lemma length_py_slice_trim:
  assumes "0 < ov" "ov \<le> int (length xs)"
  shows "int (length (py_slice xs None (Some (- ov)))) = int (length xs) - ov"
  using assms by (simp add: length_py_slice slice_hi_def slice_lo_def slice_bound_def)

lemma seq_slice_record: "seq (fst (slice_record h r start stop)) = py_slice (seq r) start stop"
  by (simp add: slice_record_def Let_def alloc_features_def)

lemma graphs_slice_record: "graphs (snd (slice_record h r start stop)) = graphs h"
  by (simp add: slice_record_def Let_def alloc_features_def)

lemma self_G_slice_record: "self_G self (snd (slice_record h r start stop)) = self_G self h"
  by (simp add: self_G_def graphs_slice_record)

lemma get_assembly_subfragments_seqs:
  "get_assembly_subfragments self frs h = (Inr subs, h1) \<Longrightarrow>
   list_all2 (\<lambda>fr sub. \<exists>sq. node_seq_opt (self_G self h) (fst fr) = Inr sq
        \<and> seq sub = py_slice (seq sq) (Some (slice_start (fst (snd fr)))) (slice_end (snd (snd fr)))) frs subs"
proof (induction frs arbitrary: h subs)
  case Nil
  then show ?case by simp
next
  case (Cons fr frs)
  obtain node sl el where fr: "fr = (node, sl, el)" by (cases fr)
  from Cons.prems obtain sq where sq: "node_seq_opt (self_G self h) node = Inr sq"
    by (auto simp: fr split: sum.splits)
  obtain sub h0 where s: "slice_record h sq (Some (slice_start sl)) (slice_end el) = (sub, h0)"
    by (cases "slice_record h sq (Some (slice_start sl)) (slice_end el)")
  from Cons.prems sq s obtain subs' where r: "get_assembly_subfragments self frs h0 = (Inr subs', h1)"
    and subs: "subs = sub # subs'"
    by (auto simp: fr split: sum.splits prod.splits)
  have g: "self_G self h0 = self_G self h" using self_G_slice_record [of self h sq] s by (metis snd_conv)
  have "seq sub = py_slice (seq sq) (Some (slice_start sl)) (slice_end el)"
    using seq_slice_record [of h sq] s by (metis fst_conv)
  then show ?case using Cons.IH [OF r] sq by (simp add: subs fr g)
qed

lemma join_fragments_seq:
  "join_fragments out fs h = (out', h') \<Longrightarrow>
   seq out' = seq out @ concat (map (\<lambda>p. py_slice (seq (fst p)) (Some (snd p)) None) fs)"
proof (induction fs arbitrary: out h)
  case Nil
  then show ?case by simp
next
  case (Cons p fs)
  obtain f ov where p: "p = (f, ov)" by (cases p)
  show ?case using Cons.prems Cons.IH
    by (auto simp: p split: prod.splits)
qed

lemma join_fragments_length:
  assumes "join_fragments out fs h = (out', h')"
      and "\<forall>p \<in> set fs. 0 \<le> snd p \<and> snd p \<le> int (length (seq (fst p)))"
  shows "int (length (seq out')) = int (length (seq out)) + (\<Sum>p\<leftarrow>fs. int (length (seq (fst p))) - snd p)"
proof -
  have "int (length (concat (map (\<lambda>p. py_slice (seq (fst p)) (Some (snd p)) None) fs)))
          = (\<Sum>p\<leftarrow>fs. int (length (seq (fst p))) - snd p)"
    using assms(2)
  proof (induction fs)
    case Nil
    then show ?case by simp
  next
    case (Cons p fs)
    have "int (length (py_slice (seq (fst p)) (Some (snd p)) None)) = int (length (seq (fst p))) - snd p"
      using Cons.prems by (intro length_py_slice_range(2)) auto
    then show ?case using Cons by simp
  qed
  then show ?thesis using join_fragments_seq [OF assms(1)] by simp
qed


lemma alternative_representation_append:
  "alternative_representation g ps = Inr A \<Longrightarrow> alternative_representation g qs = Inr B
   \<Longrightarrow> alternative_representation g (ps @ qs) = Inr (A @ B)"
proof (induction ps arbitrary: A)
  case Nil
  then show ?case by simp
next
  case (Cons p ps)
  obtain t1 t2 where p: "p = (t1, t2)" by (cases p)
  from Cons.prems(1) obtain s en A' where "start_location g t1 = Inr s" "end_location g t2 = Inr en"
    "alternative_representation g ps = Inr A'" "A = (fst (snd t1), s, en) # A'"
    by (auto simp: p split: sum.splits)
  then show ?case using Cons.IH [OF _ Cons.prems(2)] by (simp add: p)
qed

lemma start_location_some:
  "locations g e = Inr l \<Longrightarrow> start_location g (some_edge e) = Inr (Some (snd l))"
  by (cases e) (simp add: some_edge_def edge_u_def edge_v_def edge_key_def)

lemma end_location_some:
  "locations g e = Inr l \<Longrightarrow> end_location g (some_edge e) = Inr (Some (fst l))"
  by (cases e) (simp add: some_edge_def edge_u_def edge_v_def edge_key_def)

lemma alternative_representation_mid:
  assumes "\<forall>p \<in> set ps. (\<exists>l. locations g (fst p) = Inr l) \<and> (\<exists>l. locations g (snd p) = Inr l)"
  shows "alternative_representation g (map (\<lambda>p. (some_edge (fst p), some_edge (snd p))) ps)
           = Inr (map (mid_repr g) ps)"
  using assms
proof (induction ps)
  case Nil
  then show ?case by simp
next
  case (Cons p ps)
  from Cons.prems obtain l l' where l: "locations g (fst p) = Inr l" "locations g (snd p) = Inr l'"
    by auto
  have "fst (snd (some_edge (fst p))) = Some (edge_v (fst p))" by (simp add: some_edge_def)
  then show ?case using Cons l
    by (simp add: start_location_some [OF l(1)] end_location_some [OF l(2)] mid_repr_def)
qed

lemma zip_some_edges:
  "zip (map some_edge xs) (map some_edge ys) = map (\<lambda>p. (some_edge (fst p), some_edge (snd p))) (zip xs ys)"
  by (simp add: zip_map_map case_prod_beta)

lemma fragment_overlaps_of_map:
  "\<forall>e \<in> set es. \<exists>l. locations g e = Inr l \<Longrightarrow> fragment_overlaps_of g es = Inr (map (overlap_length g) es)"
  by (induction es) (auto simp: overlap_length_def)

lemma zip_cons_self: "xs \<noteq> [] \<Longrightarrow> zip (p # xs) xs = (p, hd xs) # zip xs (tl xs)"
  by (cases xs) simp_all

lemma zip_tl_snoc: "xs \<noteq> [] \<Longrightarrow> zip xs (tl xs @ [z]) = zip xs (tl xs) @ [(last xs, z)]"
  by (cases xs) (simp_all add: zip_rotate del: last.simps)

lemma zip_append_short: "length ys \<le> length xs \<Longrightarrow> zip (xs @ zs) ys = zip xs ys"
  by (simp add: zip_append1)

lemma set_tl_subset: "set (tl xs) \<subseteq> set xs"
  by (cases xs) auto

lemma zip_tl_members: "p \<in> set (zip xs (tl xs)) \<Longrightarrow> fst p \<in> set xs \<and> snd p \<in> set xs"
  using set_tl_subset [of xs] by (cases p) (auto dest: set_zip_leftD set_zip_rightD)

lemma zip_temp_circular:
  assumes "a \<noteq> []"
  shows "zip (some_edge (last a) # map some_edge a) (map some_edge a)
           = map (\<lambda>p. (some_edge (fst p), some_edge (snd p))) ((last a, hd a) # zip a (tl a))"
proof -
  have "zip (some_edge (last a) # map some_edge a) (map some_edge a)
          = (some_edge (last a), hd (map some_edge a)) # zip (map some_edge a) (tl (map some_edge a))"
    using assms by (intro zip_cons_self) simp
  also have "\<dots> = (some_edge (last a), some_edge (hd a)) # zip (map some_edge a) (map some_edge (tl a))"
    using assms by (simp add: hd_map map_tl)
  finally show ?thesis by (simp add: zip_some_edges)
qed

lemma zip_temp_linear:
  assumes "a \<noteq> []"
  shows "zip (S # map some_edge a @ [T]) (map some_edge a @ [T])
           = (S, some_edge (hd a)) # map (\<lambda>p. (some_edge (fst p), some_edge (snd p))) (zip a (tl a))
             @ [(some_edge (last a), T)]"
proof -
  let ?ms = "map some_edge a"
  have ms: "?ms \<noteq> []" using assms by simp
  have "zip (S # (?ms @ [T])) (?ms @ [T]) = (S, hd (?ms @ [T])) # zip (?ms @ [T]) (tl (?ms @ [T]))"
    by (intro zip_cons_self) simp
  also have "hd (?ms @ [T]) = some_edge (hd a)" using assms by (simp add: hd_map)
  also have "tl (?ms @ [T]) = tl ?ms @ [T]" using ms by simp
  also have "zip (?ms @ [T]) (tl ?ms @ [T]) = zip ?ms (tl ?ms @ [T])"
    using ms by (intro zip_append_short) simp
  also have "\<dots> = zip ?ms (tl ?ms) @ [(last ?ms, T)]" using ms by (rule zip_tl_snoc)
  also have "last ?ms = some_edge (last a)" using assms by (simp add: last_map)
  also have "zip ?ms (tl ?ms) = map (\<lambda>p. (some_edge (fst p), some_edge (snd p))) (zip a (tl a))"
    by (simp add: map_tl [symmetric] zip_some_edges)
  finally show ?thesis by simp
qed

text \<open>The fragment representation of a circular and of a linear candidate.\<close>

lemma repr_circular:
  assumes "a \<noteq> []" "is_circular a" "\<forall>e \<in> set a. \<exists>l. locations (self_G self h) e = Inr l"
  shows "edge_representation2subfragment_representation self h a
           = Inr (map (mid_repr (self_G self h)) ((last a, hd a) # zip a (tl a)))"
proof -
  have t: "zip (temp_edges a) (tl (temp_edges a))
             = map (\<lambda>p. (some_edge (fst p), some_edge (snd p))) ((last a, hd a) # zip a (tl a))"
    using assms(2) zip_temp_circular [OF assms(1)] by (simp add: temp_edges_def)
  have "\<forall>p \<in> set ((last a, hd a) # zip a (tl a)). fst p \<in> set a \<and> snd p \<in> set a"
    using assms(1) zip_tl_members [of _ a] by auto
  then have "\<forall>p \<in> set ((last a, hd a) # zip a (tl a)).
               (\<exists>l. locations (self_G self h) (fst p) = Inr l) \<and> (\<exists>l. locations (self_G self h) (snd p) = Inr l)"
    using assms(3) by blast
  from alternative_representation_mid [OF this] show ?thesis
    using assms(1) by (simp add: edge_representation2subfragment_representation_def t)
qed

lemma repr_linear:
  assumes "a \<noteq> []" "\<not> is_circular a" "\<forall>e \<in> set a. \<exists>l. locations (self_G self h) e = Inr l"
  shows "edge_representation2subfragment_representation self h a
           = Inr ((Some (edge_u (hd a)), None, Some (fst (projr (locations (self_G self h) (hd a)))))
                  # map (mid_repr (self_G self h)) (zip a (tl a))
                  @ [(Some (edge_v (last a)), Some (snd (projr (locations (self_G self h) (last a)))), None)])"
proof -
  let ?g = "self_G self h"
  let ?S = "(None, Some (edge_u (hd a)), None) :: opt_edge"
  let ?T = "(Some (edge_v (last a)), None, None) :: opt_edge"
  have t: "zip (temp_edges a) (tl (temp_edges a))
        = (?S, some_edge (hd a)) # map (\<lambda>p. (some_edge (fst p), some_edge (snd p))) (zip a (tl a))
          @ [(some_edge (last a), ?T)]"
    using assms(2) zip_temp_linear [OF assms(1), of ?S ?T] by (simp add: temp_edges_def)
  have "\<forall>p \<in> set (zip a (tl a)). fst p \<in> set a \<and> snd p \<in> set a"
    using zip_tl_members [of _ a] by auto
  then have "\<forall>p \<in> set (zip a (tl a)).
               (\<exists>l. locations ?g (fst p) = Inr l) \<and> (\<exists>l. locations ?g (snd p) = Inr l)"
    using assms(3) by blast
  note m = alternative_representation_mid [OF this]
  obtain lh where lh: "locations ?g (hd a) = Inr lh" using assms(1,3) by (meson hd_in_set)
  obtain ll where ll: "locations ?g (last a) = Inr ll" using assms(1,3) by (meson last_in_set)
  have e: "alternative_representation ?g [(some_edge (last a), ?T)]
             = Inr [(Some (edge_v (last a)), Some (snd (projr (locations ?g (last a)))), None)]"
    using start_location_some [OF ll] by (simp add: ll some_edge_def)
  from alternative_representation_append [OF m e]
  show ?thesis
    using assms(1) end_location_some [OF lh]
    by (simp add: edge_representation2subfragment_representation_def t lh)
qed


lemma assemble_Inr:
  assumes "assemble self a h = (Inr r, h')"
      and "edge_representation2subfragment_representation self h a = Inr frs"
      and "fragment_overlaps_of (self_G self h) a = Inr ovs"
  shows "\<exists>sub0 subs' h1 out h2.
           get_assembly_subfragments self frs h = (Inr (sub0 # subs'), h1)
           \<and> join_fragments sub0 (zip subs' ovs) h1 = (out, h2)
           \<and> r = (if fst (snd (hd frs)) \<noteq> None then close_loop out (last ovs) else out)"
proof -
  obtain res h1 where g: "get_assembly_subfragments self frs h = (res, h1)"
    by (cases "get_assembly_subfragments self frs h")
  from assms g obtain sub0 subs' where res: "res = Inr (sub0 # subs')"
    by (cases res; cases "projr res") (auto simp: assemble_def)
  obtain out h2 where j: "join_fragments sub0 (zip subs' ovs) h1 = (out, h2)"
    by (cases "join_fragments sub0 (zip subs' ovs) h1")
  have "r = (if fst (snd (hd frs)) \<noteq> None then close_loop out (last ovs) else out)"
    using assms g res j by (auto simp: assemble_def split: if_splits prod.splits sum.splits)
  then show ?thesis using g res j by blast
qed

lemma map_fst_zip_tl: "map fst (zip xs (tl xs)) = butlast xs"
  by (cases xs) (auto simp: map_fst_zip_take butlast_conv_take min_def)

lemma sum_zip_diff:
  "length xs = length ys \<Longrightarrow>
   (\<Sum>p\<leftarrow>zip xs ys. f (fst p) - snd p) = sum_list (map f xs) - (sum_list ys :: int)"
  by (induction xs ys rule: list_induct2) simp_all

text \<open>The subfragment between two consecutive edges, and the overlap it starts with.\<close>

lemma mid_fragment:
  assumes e: "overlap_in_fragments g e" and e': "overlap_in_fragments g e'"
      and c: "edge_v e = edge_u e'" and o: "ordered_overlaps g e e'"
      and sq: "node_seq_opt g (fst (mid_repr g (e, e'))) = Inr sq"
      and sub: "seq sub = py_slice (seq sq) (Some (slice_start (fst (snd (mid_repr g (e, e'))))))
                   (slice_end (snd (snd (mid_repr g (e, e')))))"
  shows "int (length (seq sub)) = subfragment_length g (mid_repr g (e, e'))"
    and "0 < overlap_length g e" and "overlap_length g e \<le> int (length (seq sub))"
proof -
  from e obtain s0 t0 st0 s1 t1 st1 ru rv where
    l: "locations g e = Inr (SimpleLocation s0 t0 st0, SimpleLocation s1 t1 st1)"
    and rv: "node_seq g (edge_v e) = Inr rv" and b: "0 \<le> s1" "s1 < t1" "t1 \<le> int (length (seq rv))"
    unfolding overlap_in_fragments_def by blast
  from e' obtain s0' t0' st0' s1' t1' st1' ru' rv' where
    l': "locations g e' = Inr (SimpleLocation s0' t0' st0', SimpleLocation s1' t1' st1')"
    and ru': "node_seq g (edge_u e') = Inr ru'" and b': "0 \<le> s0'" "s0' < t0'" "t0' \<le> int (length (seq ru'))"
    unfolding overlap_in_fragments_def by blast
  have same: "ru' = rv" using rv ru' c by simp
  have lt: "t1 < t0'" using o by (simp add: ordered_overlaps_def l l' part_end_def)
  have m: "mid_repr g (e, e') = (Some (edge_v e), Some (SimpleLocation s1 t1 st1), Some (SimpleLocation s0' t0' st0'))"
    by (simp add: mid_repr_def l l')
  have sq': "sq = rv" using sq rv by (simp add: m node_seq_opt_def)
  have s: "seq sub = py_slice (seq rv) (Some s1) (Some t0')"
    using sub by (simp add: m sq' slice_start_def slice_end_def part_start_def part_end_def)
  have len: "int (length (seq sub)) = t0' - s1"
    unfolding s using b b' lt same by (intro length_py_slice_range(1)) auto
  show "int (length (seq sub)) = subfragment_length g (mid_repr g (e, e'))"
    by (simp add: len m subfragment_length_def slice_start_def slice_end_def part_start_def part_end_def)
  have ov: "overlap_length g e = t1 - s1"
    by (simp add: overlap_length_def l loc_len_def part_start_def part_end_def)
  show "0 < overlap_length g e" using b by (simp add: ov)
  show "overlap_length g e \<le> int (length (seq sub))" using lt by (simp add: ov len)
qed

lemma first_fragment:
  assumes e: "overlap_in_fragments g e"
      and sq: "node_seq_opt g (Some (edge_u e)) = Inr sq"
      and sub: "seq sub = py_slice (seq sq) (Some (slice_start None))
                   (slice_end (Some (fst (projr (locations g e)))))"
  shows "int (length (seq sub)) = subfragment_length g (Some (edge_u e), None, Some (fst (projr (locations g e))))"
proof -
  from e obtain s0 t0 st0 s1 t1 st1 ru rv where
    l: "locations g e = Inr (SimpleLocation s0 t0 st0, SimpleLocation s1 t1 st1)"
    and ru: "node_seq g (edge_u e) = Inr ru" and b: "0 \<le> s0" "s0 < t0" "t0 \<le> int (length (seq ru))"
    unfolding overlap_in_fragments_def by blast
  have sq': "sq = ru" using sq ru by (simp add: node_seq_opt_def)
  have s: "seq sub = py_slice (seq ru) (Some 0) (Some t0)"
    using sub by (simp add: l sq' slice_start_def slice_end_def part_end_def)
  have "int (length (seq sub)) = t0 - 0"
    unfolding s using b by (intro length_py_slice_range(1)) auto
  then show ?thesis
    by (simp add: l subfragment_length_def slice_start_def slice_end_def part_end_def)
qed

lemma last_fragment:
  assumes e: "overlap_in_fragments g e"
      and sq: "node_seq_opt g (Some (edge_v e)) = Inr sq"
      and sub: "seq sub = py_slice (seq sq) (Some (slice_start (Some (snd (projr (locations g e))))))
                   (slice_end None)"
  shows "int (length (seq sub)) = subfragment_length g (Some (edge_v e), Some (snd (projr (locations g e))), None)"
    and "0 < overlap_length g e" and "overlap_length g e \<le> int (length (seq sub))"
proof -
  from e obtain s0 t0 st0 s1 t1 st1 ru rv where
    l: "locations g e = Inr (SimpleLocation s0 t0 st0, SimpleLocation s1 t1 st1)"
    and rv: "node_seq g (edge_v e) = Inr rv" and b: "0 \<le> s1" "s1 < t1" "t1 \<le> int (length (seq rv))"
    unfolding overlap_in_fragments_def by blast
  have sq': "sq = rv" using sq rv by (simp add: node_seq_opt_def)
  have s: "seq sub = py_slice (seq rv) (Some s1) None"
    using sub by (simp add: l sq' slice_start_def slice_end_def part_start_def)
  have len: "int (length (seq sub)) = int (length (seq rv)) - s1"
    unfolding s using b by (intro length_py_slice_range(2) [where e = "int (length (seq rv))"]) auto
  show "int (length (seq sub)) = subfragment_length g (Some (edge_v e), Some (snd (projr (locations g e))), None)"
    using rv by (simp add: len l subfragment_length_def slice_start_def slice_end_def part_start_def node_seq_opt_def)
  have ov: "overlap_length g e = t1 - s1"
    by (simp add: overlap_length_def l loc_len_def part_start_def part_end_def)
  show "0 < overlap_length g e" using b by (simp add: ov)
  show "overlap_length g e \<le> int (length (seq sub))" using b by (simp add: ov len)
qed


lemma get_assembly_subfragments_cut:
  "get_assembly_subfragments self frs h = (Inr subs, h1) \<Longrightarrow> list_all2 (cut_from (self_G self h)) frs subs"
  using get_assembly_subfragments_seqs [of self frs h subs h1] unfolding cut_from_def [abs_def] by simp

lemma list_all2_map_eq: "list_all2 (\<lambda>x y. f y = g x) xs ys \<Longrightarrow> map f ys = map g xs"
  by (induction rule: list_all2_induct) simp_all

lemma list_all2_zip_map:
  "list_all2 (\<lambda>x y. P y (k x)) xs ys \<Longrightarrow> \<forall>q \<in> set (zip ys (map k xs)). P (fst q) (snd q)"
  by (induction rule: list_all2_induct) simp_all

lemma mid_fragments:
  assumes wf: "\<forall>e \<in> set a. overlap_in_fragments g e"
      and ps: "\<forall>p \<in> set ps. fst p \<in> set a \<and> snd p \<in> set a \<and> edge_v (fst p) = edge_u (snd p)
                 \<and> ordered_overlaps g (fst p) (snd p)"
      and cut: "list_all2 (cut_from g) (map (mid_repr g) ps) Ms"
  shows "map (\<lambda>s. int (length (seq s))) Ms = map (\<lambda>p. subfragment_length g (mid_repr g p)) ps"
    and "\<forall>q \<in> set (zip Ms (map (\<lambda>p. overlap_length g (fst p)) ps)).
           0 \<le> snd q \<and> snd q \<le> int (length (seq (fst q)))"
    and "length Ms = length ps"
proof -
  have c: "list_all2 (\<lambda>p sub. cut_from g (mid_repr g p) sub) ps Ms"
    using cut by (simp add: list_all2_map1)
  have both: "list_all2 (\<lambda>p sub. int (length (seq sub)) = subfragment_length g (mid_repr g p)
                 \<and> 0 \<le> overlap_length g (fst p) \<and> overlap_length g (fst p) \<le> int (length (seq sub))) ps Ms"
    using c
  proof (rule list.rel_mono_strong)
    fix p sub assume p: "p \<in> set ps" and cf: "cut_from g (mid_repr g p) sub"
    obtain e e' where pe: "p = (e, e')" by (cases p)
    from cf obtain sq where sq: "node_seq_opt g (fst (mid_repr g (e, e'))) = Inr sq"
      and sub: "seq sub = py_slice (seq sq) (Some (slice_start (fst (snd (mid_repr g (e, e'))))))
                   (slice_end (snd (snd (mid_repr g (e, e')))))"
      unfolding cut_from_def pe by blast
    have e: "overlap_in_fragments g e" "overlap_in_fragments g e'" "edge_v e = edge_u e'"
      "ordered_overlaps g e e'"
      using ps p wf by (auto simp: pe)
    note m = mid_fragment [OF e sq sub]
    show "int (length (seq sub)) = subfragment_length g (mid_repr g p)
            \<and> 0 \<le> overlap_length g (fst p) \<and> overlap_length g (fst p) \<le> int (length (seq sub))"
      using m by (simp add: pe)
  qed
  have 1: "list_all2 (\<lambda>p sub. int (length (seq sub)) = subfragment_length g (mid_repr g p)) ps Ms"
    using both by (rule list_all2_mono) simp
  show "map (\<lambda>s. int (length (seq s))) Ms = map (\<lambda>p. subfragment_length g (mid_repr g p)) ps"
    using list_all2_map_eq [OF 1] .
  have 2: "list_all2 (\<lambda>p sub. 0 \<le> overlap_length g (fst p) \<and> overlap_length g (fst p) \<le> int (length (seq sub))) ps Ms"
    using both by (rule list_all2_mono) simp
  show "\<forall>q \<in> set (zip Ms (map (\<lambda>p. overlap_length g (fst p)) ps)).
           0 \<le> snd q \<and> snd q \<le> int (length (seq (fst q)))"
    using list_all2_zip_map [where P = "\<lambda>sub ov. 0 \<le> ov \<and> ov \<le> int (length (seq sub))"
        and k = "\<lambda>p. overlap_length g (fst p)", OF 2] by simp
  show "length Ms = length ps" using c by (simp add: list_all2_lengthD)
qed

lemma sum_list_diff_nonneg:
  "\<forall>q \<in> set qs. snd q \<le> f (fst q) \<Longrightarrow> 0 \<le> (\<Sum>q\<leftarrow>qs. f (fst q) - (snd q :: int))"
  by (induction qs) auto


lemma validated_pairs:
  assumes valid: "validate_assembly self h a = Inr True" and chain: "is_chain a"
  shows "a \<noteq> []"
    and "\<forall>p \<in> set (zip a (tl a)). fst p \<in> set a \<and> snd p \<in> set a \<and> edge_v (fst p) = edge_u (snd p)
           \<and> ordered_overlaps (self_G self h) (fst p) (snd p)"
    and "is_circular a \<Longrightarrow> ordered_overlaps (self_G self h) (last a) (hd a)"
proof -
  show ne: "a \<noteq> []" using valid by (auto simp: validate_assembly_def)
  have "check_edge_pairs (self_G self h) (edge_pairs_of a) = Inr True"
    using valid by (auto simp: validate_assembly_def split: if_splits)
  from check_edge_pairs_Inr [OF this]
  have ord: "\<forall>p \<in> set (edge_pairs_of a). ordered_overlaps (self_G self h) (fst p) (snd p)" by simp
  show "\<forall>p \<in> set (zip a (tl a)). fst p \<in> set a \<and> snd p \<in> set a \<and> edge_v (fst p) = edge_u (snd p)
           \<and> ordered_overlaps (self_G self h) (fst p) (snd p)"
  proof
    fix p assume p: "p \<in> set (zip a (tl a))"
    then obtain k where k: "Suc k < length a" "p = (a ! k, a ! Suc k)"
      unfolding set_zip_tl by blast
    have "p \<in> set (edge_pairs_of a)" using k unfolding set_edge_pairs_of [OF ne] by blast
    then have "ordered_overlaps (self_G self h) (fst p) (snd p)" using ord by blast
    moreover have "edge_v (fst p) = edge_u (snd p)" using chain k by (simp add: is_chain_def)
    ultimately show "fst p \<in> set a \<and> snd p \<in> set a \<and> edge_v (fst p) = edge_u (snd p)
           \<and> ordered_overlaps (self_G self h) (fst p) (snd p)"
      using zip_tl_members [OF p] by simp
  qed
  show "ordered_overlaps (self_G self h) (last a) (hd a)" if "is_circular a"
  proof -
    have "(last a, hd a) \<in> set (edge_pairs_of a)" using that unfolding set_edge_pairs_of [OF ne] by simp
    then show ?thesis using ord by fastforce
  qed
qed

lemma sum_overlaps_split:
  "a \<noteq> [] \<Longrightarrow> sum_list (map f a) = sum_list (map f (butlast a)) + (f (last a) :: int)"
  by (induction a) auto

text \<open>
  C5, as the claim states it, fails on the module's own example. The linear assembly of
  the three fragments has 34 symbols (it is the first of the module's \<open>linear_results\<close>); the
  fragments have 14 + 17 + 18 symbols and the two overlaps 6 + 7, which gives 36. The
  circular assembly has 27 symbols (the module's \<open>circular_results\<close>); the fragments less the
  three overlaps give 31, and less the closing overlap once more 26.
\<close>

theorem assemble_length_is_not_fragment_sum:
  "fst (get_linear_assemblies dfs_simple_edge_paths example_asm example_heap) =
       Inr [[e12, e23], [e23, e31], [e31, e12], [e13], [e21], [e32]]
   \<and> fst (assemble example_asm [e12, e23] example_heap) =
       Inr \<lparr>seq = ''AacgatCAtgctccTAAattctgcGAGGacgatG'', features = [4, 6], circular = False\<rparr>
   \<and> fragment_overlaps_of (self_G example_asm example_heap) [e12, e23] = Inr [6, 7]
   \<and> int (length ''AacgatCAtgctccTAAattctgcGAGGacgatG'')
        \<noteq> int (length (seq frag_a) + length (seq frag_b) + length (seq frag_c)) - sum_list [6, 7]
   \<and> get_circular_assemblies dfs_simple_cycles example_asm example_heap = Inr [[e12, e23, e31]]
   \<and> fst (assemble example_asm [e12, e23, e31] example_heap) =
       Inr \<lparr>seq = ''acgatCAtgctccTAAattctgcGAGG'', features = [4, 6], circular = True\<rparr>
   \<and> fragment_overlaps_of (self_G example_asm example_heap) [e12, e23, e31] = Inr [6, 7, 5]
   \<and> int (length ''acgatCAtgctccTAAattctgcGAGG'')
        \<noteq> int (length (seq frag_a) + length (seq frag_b) + length (seq frag_c)) - sum_list [6, 7, 5]
   \<and> int (length ''acgatCAtgctccTAAattctgcGAGG'')
        \<noteq> int (length (seq frag_a) + length (seq frag_b) + length (seq frag_c)) - sum_list [6, 7, 5] - 5"
  by code_simp

text \<open>
  C5, amended. For a candidate that passes \<open>validate_assembly\<close>, is a chain, and whose
  overlaps are single spans of positive length inside their fragments, the sequence
  \<open>assemble\<close> produces has the length of the subfragments used, each fragment cut from the
  start of the overlap with the fragment before it (from its own start when there is none)
  to the end of the overlap with the fragment after it (to its own end when there is
  none), less the overlap lengths of all edges of the candidate; for a circular candidate
  the closing edge is one of them.
\<close>

theorem assemble_length:
  assumes ret: "assemble self a h = (Inr r, h')"
      and valid: "validate_assembly self h a = Inr True"
      and chain: "is_chain a"
      and wf: "\<forall>e \<in> set a. overlap_in_fragments (self_G self h) e"
  shows "\<exists>frs ovs. edge_representation2subfragment_representation self h a = Inr frs
           \<and> fragment_overlaps_of (self_G self h) a = Inr ovs
           \<and> int (length (seq r)) = sum_list (map (subfragment_length (self_G self h)) frs) - sum_list ovs"
proof -
  let ?g = "self_G self h"
  let ?ps = "zip a (tl a)"
  let ?ov = "overlap_length ?g"
  let ?len = "\<lambda>s. int (length (seq s))"
  note v = validated_pairs [OF valid chain]
  have ne: "a \<noteq> []" by (rule v(1))
  have locs: "\<forall>e \<in> set a. \<exists>l. locations ?g e = Inr l"
    using wf unfolding overlap_in_fragments_def by blast
  have ovs: "fragment_overlaps_of ?g a = Inr (map ?ov a)"
    by (rule fragment_overlaps_of_map [OF locs])
  have lps: "length ?ps = length (butlast a)" using ne by (cases a) (auto simp: min_def)
  have "map (\<lambda>p. ?ov (fst p)) ?ps = map ?ov (map fst ?ps)" by simp
  then have ovps: "map (\<lambda>p. ?ov (fst p)) ?ps = map ?ov (butlast a)"
    unfolding map_fst_zip_tl .
  have "map ?ov (butlast a @ [last a]) = map ?ov (butlast a) @ [?ov (last a)]" by simp
  then have oa: "map ?ov a = map ?ov (butlast a) @ [?ov (last a)]"
    unfolding append_butlast_last_id [OF ne] .
  have hd_in: "hd a \<in> set a" and last_in: "last a \<in> set a" using ne by simp_all
  show ?thesis
  proof (cases "is_circular a")
    case True
    let ?frs = "map (mid_repr ?g) ((last a, hd a) # ?ps)"
    have frs: "edge_representation2subfragment_representation self h a = Inr ?frs"
      by (rule repr_circular [OF ne True locs])
    from assemble_Inr [OF ret frs ovs] obtain sub0 subs' h1 out h2 where
      subs: "get_assembly_subfragments self ?frs h = (Inr (sub0 # subs'), h1)"
      and j: "join_fragments sub0 (zip subs' (map ?ov a)) h1 = (out, h2)"
      and r: "r = (if fst (snd (hd ?frs)) \<noteq> None then close_loop out (last (map ?ov a)) else out)"
      by blast
    have r': "r = close_loop out (?ov (last a))"
      using r ne by (simp add: mid_repr_def last_map)
    from get_assembly_subfragments_cut [OF subs]
    have c0: "cut_from ?g (mid_repr ?g (last a, hd a)) sub0"
      and cs: "list_all2 (cut_from ?g) (map (mid_repr ?g) ?ps) subs'"
      by simp_all
    from c0 obtain sq where sq: "node_seq_opt ?g (fst (mid_repr ?g (last a, hd a))) = Inr sq"
      and sub: "seq sub0 = py_slice (seq sq) (Some (slice_start (fst (snd (mid_repr ?g (last a, hd a))))))
                   (slice_end (snd (snd (mid_repr ?g (last a, hd a)))))"
      unfolding cut_from_def by blast
    have wrap: "edge_v (last a) = edge_u (hd a)" using True by (simp add: is_circular_def)
    note m0 = mid_fragment [OF wf [rule_format, OF last_in] wf [rule_format, OF hd_in] wrap v(3) [OF True] sq sub]
    note ms = mid_fragments [OF wf v(2) cs]
    have z: "zip subs' (map ?ov a) = zip subs' (map ?ov (butlast a))"
    proof -
      have "length subs' \<le> length (map ?ov (butlast a))" using ms(3) lps by simp
      then show ?thesis unfolding oa by (simp add: zip_append2)
    qed
    have b: "\<forall>q \<in> set (zip subs' (map ?ov a)). 0 \<le> snd q \<and> snd q \<le> ?len (fst q)"
      using ms(2) unfolding z ovps .
    have "?len out = ?len sub0 + (\<Sum>q\<leftarrow>zip subs' (map ?ov a). ?len (fst q) - snd q)"
      by (rule join_fragments_length [OF j b])
    also have "(\<Sum>q\<leftarrow>zip subs' (map ?ov a). ?len (fst q) - snd q)
                 = sum_list (map ?len subs') - sum_list (map ?ov (butlast a))"
      unfolding z using ms(3) lps by (intro sum_zip_diff) simp
    finally have lo: "?len out = ?len sub0 + sum_list (map ?len subs') - sum_list (map ?ov (butlast a))"
      by simp
    have nonneg: "0 \<le> (\<Sum>q\<leftarrow>zip subs' (map ?ov a). ?len (fst q) - snd q)"
      using b by (intro sum_list_diff_nonneg) simp
    have ge: "?ov (last a) \<le> ?len out"
      using join_fragments_length [OF j b] nonneg m0(3) by linarith
    have "?len r = ?len out - ?ov (last a)"
      unfolding r' close_loop_def using m0(2) ge by (simp add: length_py_slice_trim)
    also have "\<dots> = (?len sub0 + sum_list (map ?len subs')) - sum_list (map ?ov a)"
      using lo sum_overlaps_split [OF ne, of ?ov] by simp
    also have "?len sub0 + sum_list (map ?len subs') = sum_list (map (subfragment_length ?g) ?frs)"
      using m0(1) ms(1) by (simp add: comp_def)
    finally show ?thesis using frs ovs by blast
  next
    case False
    let ?F0 = "(Some (edge_u (hd a)), None, Some (fst (projr (locations ?g (hd a))))) :: subfragment_repr"
    let ?FL = "(Some (edge_v (last a)), Some (snd (projr (locations ?g (last a)))), None) :: subfragment_repr"
    let ?frs = "?F0 # map (mid_repr ?g) ?ps @ [?FL]"
    have frs: "edge_representation2subfragment_representation self h a = Inr ?frs"
      by (rule repr_linear [OF ne False locs])
    from assemble_Inr [OF ret frs ovs] obtain sub0 subs' h1 out h2 where
      subs: "get_assembly_subfragments self ?frs h = (Inr (sub0 # subs'), h1)"
      and j: "join_fragments sub0 (zip subs' (map ?ov a)) h1 = (out, h2)"
      and r: "r = (if fst (snd (hd ?frs)) \<noteq> None then close_loop out (last (map ?ov a)) else out)"
      by blast
    have r': "r = out" using r by simp
    from get_assembly_subfragments_cut [OF subs]
    have c0: "cut_from ?g ?F0 sub0"
      and cs: "list_all2 (cut_from ?g) (map (mid_repr ?g) ?ps @ [?FL]) subs'"
      by simp_all
    from cs obtain Ms Ls where sp: "subs' = Ms @ Ls" and cm: "list_all2 (cut_from ?g) (map (mid_repr ?g) ?ps) Ms"
      and cl: "list_all2 (cut_from ?g) [?FL] Ls"
      by (auto simp: list_all2_append1)
    from cl obtain subL where Ls: "Ls = [subL]" and cL: "cut_from ?g ?FL subL"
      by (auto simp: list_all2_Cons1)
    from c0 obtain sq0 where sq0: "node_seq_opt ?g (Some (edge_u (hd a))) = Inr sq0"
      and sub0: "seq sub0 = py_slice (seq sq0) (Some (slice_start None))
                   (slice_end (Some (fst (projr (locations ?g (hd a))))))"
      unfolding cut_from_def by auto
    note f0 = first_fragment [OF wf [rule_format, OF hd_in] sq0 sub0]
    from cL obtain sqL where sqL: "node_seq_opt ?g (Some (edge_v (last a))) = Inr sqL"
      and subL: "seq subL = py_slice (seq sqL) (Some (slice_start (Some (snd (projr (locations ?g (last a)))))))
                   (slice_end None)"
      unfolding cut_from_def by auto
    note fL = last_fragment [OF wf [rule_format, OF last_in] sqL subL]
    note ms = mid_fragments [OF wf v(2) cm]
    have z: "zip subs' (map ?ov a) = zip Ms (map ?ov (butlast a)) @ [(subL, ?ov (last a))]"
      unfolding sp Ls oa using ms(3) lps by (simp add: zip_append)
    have b: "\<forall>q \<in> set (zip subs' (map ?ov a)). 0 \<le> snd q \<and> snd q \<le> ?len (fst q)"
      using ms(2) fL(2,3) unfolding z ovps by auto
    have ll: "length subs' = length (map ?ov a)"
      unfolding sp Ls oa using ms(3) lps by simp
    have "?len out = ?len sub0 + (\<Sum>q\<leftarrow>zip subs' (map ?ov a). ?len (fst q) - snd q)"
      by (rule join_fragments_length [OF j b])
    also have "(\<Sum>q\<leftarrow>zip subs' (map ?ov a). ?len (fst q) - snd q)
                 = sum_list (map ?len subs') - sum_list (map ?ov a)"
      using ll by (rule sum_zip_diff)
    finally have "?len out = (?len sub0 + sum_list (map ?len subs')) - sum_list (map ?ov a)"
      by simp
    also have "?len sub0 + sum_list (map ?len subs') = sum_list (map (subfragment_length ?g) ?frs)"
      using f0 fL(1) ms(1) by (simp add: sp Ls comp_def)
    finally show ?thesis using frs ovs r' by blast
  qed
qed

lemma example_node_seqs:
  "node_seq example_graph (PyInt 1) = Inr frag_a"
  "node_seq example_graph (PyInt 2) = Inr frag_b"
  "node_seq example_graph (PyInt 3) = Inr frag_c"
  by code_simp+

lemma overlap_in_fragmentsI:
  assumes "locations g e = Inr (SimpleLocation s0 t0 st0, SimpleLocation s1 t1 st1)"
      and "node_seq g (edge_u e) = Inr ru" and "node_seq g (edge_v e) = Inr rv"
      and "0 \<le> s0" "s0 < t0" "t0 \<le> int (length (seq ru))"
      and "0 \<le> s1" "s1 < t1" "t1 \<le> int (length (seq rv))"
  shows "overlap_in_fragments g e"
  unfolding overlap_in_fragments_def using assms by blast

lemma example_edge_nodes:
  "node_seq example_graph (edge_u e12) = Inr frag_a" "node_seq example_graph (edge_v e12) = Inr frag_b"
  "node_seq example_graph (edge_u e23) = Inr frag_b" "node_seq example_graph (edge_v e23) = Inr frag_c"
  "node_seq example_graph (edge_u e31) = Inr frag_c" "node_seq example_graph (edge_v e31) = Inr frag_a"
  by (simp_all add: e12_def e23_def e31_def edge_u_def edge_v_def example_node_seqs)

lemma example_overlaps_in_fragments:
  "overlap_in_fragments (self_G example_asm example_heap) e12"
  "overlap_in_fragments (self_G example_asm example_heap) e23"
  "overlap_in_fragments (self_G example_asm example_heap) e31"
  unfolding example_self_G
  by (rule overlap_in_fragmentsI [OF example_locations(1) example_edge_nodes(1,2)],
      simp_all add: frag_a_def frag_b_def frag_c_def,
      rule overlap_in_fragmentsI [OF example_locations(2) example_edge_nodes(3,4)],
      simp_all add: frag_a_def frag_b_def frag_c_def,
      rule overlap_in_fragmentsI [OF example_locations(3) example_edge_nodes(5,6)],
      simp_all add: frag_a_def frag_b_def frag_c_def)

lemma is_chain_2: "is_chain [x, y] \<longleftrightarrow> edge_v x = edge_u y"
  by (auto simp: is_chain_def less_Suc_eq)

lemma is_chain_3: "is_chain [x, y, z] \<longleftrightarrow> edge_v x = edge_u y \<and> edge_v y = edge_u z"
  by (auto simp: is_chain_def less_Suc_eq)

theorem assemble_length_witness:
  "validate_assembly example_asm example_heap [e12, e23] = Inr True
   \<and> is_chain [e12, e23]
   \<and> overlap_in_fragments (self_G example_asm example_heap) e12
   \<and> overlap_in_fragments (self_G example_asm example_heap) e23
   \<and> fst (assemble example_asm [e12, e23] example_heap) =
       Inr \<lparr>seq = ''AacgatCAtgctccTAAattctgcGAGGacgatG'', features = [4, 6], circular = False\<rparr>
   \<and> map (subfragment_length (self_G example_asm example_heap))
          [(Some (PyInt 1), None, Some (SimpleLocation 8 14 (Some 1))),
           (Some (PyInt 2), Some (SimpleLocation 1 7 (Some 1)), Some (SimpleLocation 10 17 (Some 1))),
           (Some (PyInt 3), Some (SimpleLocation 1 8 (Some 1)), None)] = [14, 16, 17]
   \<and> int (length ''AacgatCAtgctccTAAattctgcGAGGacgatG'') = sum_list [14, 16, 17] - sum_list [6, 7]
   \<and> validate_assembly example_asm example_heap [e12, e23, e31] = Inr True
   \<and> is_chain [e12, e23, e31]
   \<and> overlap_in_fragments (self_G example_asm example_heap) e31
   \<and> fst (assemble example_asm [e12, e23, e31] example_heap) =
       Inr \<lparr>seq = ''acgatCAtgctccTAAattctgcGAGG'', features = [4, 6], circular = True\<rparr>
   \<and> map (subfragment_length (self_G example_asm example_heap))
          [(Some (PyInt 1), Some (SimpleLocation 1 6 (Some 1)), Some (SimpleLocation 8 14 (Some 1))),
           (Some (PyInt 2), Some (SimpleLocation 1 7 (Some 1)), Some (SimpleLocation 10 17 (Some 1))),
           (Some (PyInt 3), Some (SimpleLocation 1 8 (Some 1)), Some (SimpleLocation 12 17 (Some 1)))] = [13, 16, 16]
   \<and> int (length ''acgatCAtgctccTAAattctgcGAGG'') = sum_list [13, 16, 16] - sum_list [6, 7, 5]"
proof -
  let ?lin = "\<lparr>seq = ''AacgatCAtgctccTAAattctgcGAGGacgatG'', features = [4, 6], circular = False\<rparr>"
  let ?circ = "\<lparr>seq = ''acgatCAtgctccTAAattctgcGAGG'', features = [4, 6], circular = True\<rparr>"
  let ?fl = "[(Some (PyInt 1), None, Some (SimpleLocation 8 14 (Some 1))),
           (Some (PyInt 2), Some (SimpleLocation 1 7 (Some 1)), Some (SimpleLocation 10 17 (Some 1))),
           (Some (PyInt 3), Some (SimpleLocation 1 8 (Some 1)), None)]"
  let ?fc = "[(Some (PyInt 1), Some (SimpleLocation 1 6 (Some 1)), Some (SimpleLocation 8 14 (Some 1))),
           (Some (PyInt 2), Some (SimpleLocation 1 7 (Some 1)), Some (SimpleLocation 10 17 (Some 1))),
           (Some (PyInt 3), Some (SimpleLocation 1 8 (Some 1)), Some (SimpleLocation 12 17 (Some 1)))]"
  have v1: "validate_assembly example_asm example_heap [e12, e23] = Inr True" by code_simp
  have v2: "validate_assembly example_asm example_heap [e12, e23, e31] = Inr True" by code_simp
  have c1: "is_chain [e12, e23]"
    by (simp add: is_chain_2 e12_def e23_def edge_u_def edge_v_def)
  have c2: "is_chain [e12, e23, e31]"
    by (simp add: is_chain_3 e12_def e23_def e31_def edge_u_def edge_v_def)
  note o = example_overlaps_in_fragments
  have w1: "\<forall>e \<in> set [e12, e23]. overlap_in_fragments (self_G example_asm example_heap) e"
    using o by simp
  have w2: "\<forall>e \<in> set [e12, e23, e31]. overlap_in_fragments (self_G example_asm example_heap) e"
    using o by simp
  have a1: "fst (assemble example_asm [e12, e23] example_heap) = Inr ?lin" by code_simp
  have a2: "fst (assemble example_asm [e12, e23, e31] example_heap) = Inr ?circ" by code_simp
  obtain h1 where r1: "assemble example_asm [e12, e23] example_heap = (Inr ?lin, h1)"
    using a1 by (cases "assemble example_asm [e12, e23] example_heap") auto
  obtain h2 where r2: "assemble example_asm [e12, e23, e31] example_heap = (Inr ?circ, h2)"
    using a2 by (cases "assemble example_asm [e12, e23, e31] example_heap") auto
  have f1: "edge_representation2subfragment_representation example_asm example_heap [e12, e23] = Inr ?fl"
    by code_simp
  have f2: "edge_representation2subfragment_representation example_asm example_heap [e12, e23, e31] = Inr ?fc"
    by code_simp
  have ov1: "fragment_overlaps_of (self_G example_asm example_heap) [e12, e23] = Inr [6, 7]" by code_simp
  have ov2: "fragment_overlaps_of (self_G example_asm example_heap) [e12, e23, e31] = Inr [6, 7, 5]"
    by code_simp
  have s1: "map (subfragment_length (self_G example_asm example_heap)) ?fl = [14, 16, 17]" by code_simp
  have s2: "map (subfragment_length (self_G example_asm example_heap)) ?fc = [13, 16, 16]" by code_simp
  from assemble_length [OF r1 v1 c1 w1]
  have l1: "int (length ''AacgatCAtgctccTAAattctgcGAGGacgatG'') = sum_list [14, 16, 17] - sum_list [6, 7]"
    unfolding f1 ov1 by (auto simp: s1)
  from assemble_length [OF r2 v2 c2 w2]
  have l2: "int (length ''acgatCAtgctccTAAattctgcGAGG'') = sum_list [13, 16, 16] - sum_list [6, 7, 5]"
    unfolding f2 ov2 by (auto simp: s2)
  show ?thesis using v1 v2 c1 c2 o a1 a2 s1 s2 l1 l2 by simp
qed

section \<open>The calls leave the graph and the fragments as they were\<close>

lemma heap_extendsI:
  assumes "heap_extends h h2" "graphs h3 = graphs h2" "length (feats h3) = length (feats h2)"
      and "take (length (feats h)) (feats h3) = take (length (feats h)) (feats h2)"
  shows "heap_extends h h3"
proof -
  from assms(1) obtain zs where zs: "feats h2 = feats h @ zs" by (auto simp: heap_extends_def prefix_def)
  then have "take (length (feats h)) (feats h3) = feats h" using assms(4) by simp
  then have "prefix (feats h) (feats h3)" by (metis take_is_prefix)
  then show ?thesis using assms(1,2) by (simp add: heap_extends_def)
qed

lemma heap_extends_append: "graphs h1 = graphs h \<Longrightarrow> feats h1 = feats h @ vs \<Longrightarrow> heap_extends h h1"
  by (simp add: heap_extends_def)

lemma heap_extends_length: "heap_extends h h' \<Longrightarrow> length (feats h) \<le> length (feats h')"
  by (auto simp: heap_extends_def prefix_def)

lemma alloc_features_heap:
  assumes "alloc_features h fs = (refs, h1)"
  shows "feats h1 = feats h @ fs" and "graphs h1 = graphs h"
    and "refs = [length (feats h) ..< length (feats h) + length fs]"
  using assms by (auto simp: alloc_features_def)

lemma slice_record_heap:
  assumes "slice_record h r start stop = (sub, h1)"
  shows "\<exists>vs. feats h1 = feats h @ vs" and "graphs h1 = graphs h"
    and "features sub = [length (feats h) ..< length (feats h1)]"
    and "seq sub = py_slice (seq r) start stop" and "circular sub = False"
  using assms by (auto simp: slice_record_def alloc_features_def Let_def)

lemma made_since_mono:
  "made_since n h r \<Longrightarrow> m \<le> n \<Longrightarrow> heap_extends h h' \<Longrightarrow> made_since m h' r"
  using heap_extends_length [of h h'] by (fastforce simp: made_since_def)

lemma get_assembly_subfragments_heap:
  "get_assembly_subfragments self frs h = (res, h1) \<Longrightarrow>
   heap_extends h h1 \<and> graphs h1 = graphs h
   \<and> (\<forall>subs. res = Inr subs \<longrightarrow> (\<forall>sub \<in> set subs. made_since (length (feats h)) h1 sub \<and> \<not> circular sub))"
proof (induction frs arbitrary: h res h1)
  case Nil
  then show ?case by (auto simp: heap_extends_refl)
next
  case (Cons fr frs)
  obtain node sl el where fr: "fr = (node, sl, el)" by (cases fr)
  show ?case
  proof (cases "node_seq_opt (self_G self h) node")
    case (Inl e)
    then show ?thesis using Cons.prems by (auto simp: fr heap_extends_refl)
  next
    case (Inr sq)
    obtain sub h0 where s: "slice_record h sq (Some (slice_start sl)) (slice_end el) = (sub, h0)"
      by (cases "slice_record h sq (Some (slice_start sl)) (slice_end el)")
    obtain res' h1' where r: "get_assembly_subfragments self frs h0 = (res', h1')"
      by (cases "get_assembly_subfragments self frs h0")
    note sh = slice_record_heap [OF s]
    from sh(1) obtain vs where vs: "feats h0 = feats h @ vs" by blast
    have e0: "heap_extends h h0" using sh(2) vs by (rule heap_extends_append)
    note ih = Cons.IH [OF r]
    have e1: "heap_extends h h1'" using e0 ih by (blast intro: heap_extends_trans)
    have h1: "h1 = h1'" using Cons.prems Inr s r by (auto simp: fr split: sum.splits)
    have m0: "made_since (length (feats h)) h0 sub"
      using sh(3) by (auto simp: made_since_def)
    have m1: "made_since (length (feats h)) h1' sub"
      using made_since_mono [OF m0 order_refl] ih by blast
    have rest: "made_since (length (feats h)) h1' s' \<and> \<not> circular s'" if "res' = Inr subs'" "s' \<in> set subs'" for subs' s'
    proof -
      from ih that have "made_since (length (feats h0)) h1' s'" "\<not> circular s'" by blast+
      then show ?thesis using vs by (auto simp: made_since_def)
    qed
    have "\<forall>sub' \<in> set subs. made_since (length (feats h)) h1 sub' \<and> \<not> circular sub'" if "res = Inr subs" for subs
    proof -
      from Cons.prems Inr s r that obtain subs' where "res' = Inr subs'" "subs = sub # subs'"
        by (auto simp: fr split: sum.splits)
      then show ?thesis using m1 rest sh(5) h1 by auto
    qed
    then show ?thesis using e1 ih sh(2) h1 by auto
  qed
qed

lemma join_fragments_heap:
  "join_fragments out fs h = (out', h') \<Longrightarrow> made_since n h out \<Longrightarrow> n \<le> length (feats h) \<Longrightarrow>
   heap_extends h h' \<and> graphs h' = graphs h \<and> made_since n h' out'"
proof (induction fs arbitrary: out h)
  case Nil
  then show ?case by (auto simp: heap_extends_refl)
next
  case (Cons p fs)
  obtain fragment overlap where p: "p = (fragment, overlap)" by (cases p)
  let ?vs = "map (\<lambda>a. feature_shift (feats h ! a) (int (length (seq out)) - overlap)) (features fragment)"
  obtain new_features h1 where a: "alloc_features h ?vs = (new_features, h1)"
    by (cases "alloc_features h ?vs")
  note ah = alloc_features_heap [OF a]
  let ?out1 = "\<lparr>seq = seq out @ py_slice (seq fragment) (Some overlap) None,
                features = features out @ new_features, circular = False\<rparr>"
  have j: "join_fragments ?out1 fs h1 = (out', h')" using Cons.prems(1) a by (simp add: p)
  have e: "heap_extends h h1" using ah(2,1) by (rule heap_extends_append)
  have m: "made_since n h1 ?out1"
    using Cons.prems(2,3) ah by (auto simp: made_since_def)
  have n: "n \<le> length (feats h1)" using Cons.prems(3) ah by simp
  from Cons.IH [OF j m n] show ?case using e ah(2) by (auto intro: heap_extends_trans)
qed

lemma wrap_features_heap:
  "wrap_features n refs h = (res, h') \<Longrightarrow> \<forall>a \<in> set refs. n0 \<le> a \<Longrightarrow>
   graphs h' = graphs h \<and> length (feats h') = length (feats h) \<and> take n0 (feats h') = take n0 (feats h)"
proof (induction refs arbitrary: h)
  case Nil
  then show ?case by simp
next
  case (Cons a refs)
  show ?case
  proof (cases "part_start (hd (parts (location (feats h ! a)))) \<ge> int n
                 \<or> part_end (last (parts (location (feats h ! a)))) > int n")
    case True
    show ?thesis
    proof (cases "shift_location (location (feats h ! a)) 0 n")
      case (Inl e)
      then show ?thesis using Cons.prems True by auto
    next
      case (Inr l)
      let ?h1 = "h\<lparr>feats := (feats h)[a := (feats h ! a)\<lparr>location := l\<rparr>]\<rparr>"
      have "wrap_features n refs ?h1 = (res, h')" using Cons.prems(1) True Inr by simp
      from Cons.IH [OF this] Cons.prems(2) show ?thesis by simp
    qed
  next
    case False
    then have "wrap_features n refs h = (res, h')" using Cons.prems(1) by auto
    from Cons.IH [OF this] Cons.prems(2) show ?thesis by simp
  qed
qed

lemma assemble_heap:
  assumes "assemble self a h = (res, h')"
  shows "heap_extends h h'"
    and "res = Inr r \<Longrightarrow> made_since (length (feats h)) h' r"
proof -
  have "heap_extends h h' \<and> (\<forall>r. res = Inr r \<longrightarrow> made_since (length (feats h)) h' r)"
  proof (cases "edge_representation2subfragment_representation self h a")
    case (Inl e)
    then show ?thesis using assms by (auto simp: assemble_def heap_extends_refl)
  next
    case frs: (Inr frs)
    show ?thesis
    proof (cases "fragment_overlaps_of (self_G self h) a")
      case (Inl e)
      then show ?thesis using assms frs by (auto simp: assemble_def heap_extends_refl)
    next
      case ovs: (Inr ovs)
      obtain sres h1 where g: "get_assembly_subfragments self frs h = (sres, h1)"
        by (cases "get_assembly_subfragments self frs h")
      note gh = get_assembly_subfragments_heap [OF g]
      show ?thesis
      proof (cases sres)
        case (Inl e)
        then show ?thesis using assms frs ovs g gh by (auto simp: assemble_def)
      next
        case (Inr subs)
        show ?thesis
        proof (cases subs)
          case Nil
          then show ?thesis using assms frs ovs g gh Inr by (auto simp: assemble_def)
        next
          case (Cons sub0 subs')
          obtain out h2 where j: "join_fragments sub0 (zip subs' ovs) h1 = (out, h2)"
            by (cases "join_fragments sub0 (zip subs' ovs) h1")
          have m0: "made_since (length (feats h)) h1 sub0" using gh Inr Cons by auto
          have le: "length (feats h) \<le> length (feats h1)" using gh heap_extends_length by blast
          note jh = join_fragments_heap [OF j m0 le]
          have e2: "heap_extends h h2" using gh jh by (blast intro: heap_extends_trans)
          show ?thesis
          proof (cases "fst (snd (hd frs)) \<noteq> None")
            case False
            then have "res = Inr out" "h' = h2"
              using assms frs ovs g Inr Cons j by (auto simp: assemble_def)
            then show ?thesis using e2 jh by auto
          next
            case True
            let ?n = "length (seq (close_loop out (last ovs)))"
            obtain wres h3 where w: "wrap_features ?n (features out) h2 = (wres, h3)"
              by (cases "wrap_features ?n (features out) h2")
            have "\<forall>a \<in> set (features out). length (feats h) \<le> a"
              using jh by (auto simp: made_since_def)
            note wh = wrap_features_heap [OF w this]
            have e3: "heap_extends h h3"
              using e2 wh by (intro heap_extendsI [of h h2 h3]) auto
            have h3: "h' = h3"
              using assms frs ovs g Inr Cons j True w by (auto simp: assemble_def split: sum.splits)
            have "made_since (length (feats h)) h3 (close_loop out (last ovs))"
              using jh wh by (auto simp: made_since_def close_loop_def)
            moreover have "r = close_loop out (last ovs)" if "res = Inr r" for r
              using assms frs ovs g Inr Cons j True w that by (auto simp: assemble_def split: sum.splits)
            ultimately show ?thesis using e3 h3 by auto
          qed
        qed
      qed
    qed
  qed
  then show "heap_extends h h'" and "res = Inr r \<Longrightarrow> made_since (length (feats h)) h' r" by auto
qed

lemma feature_values_extends:
  "heap_extends h h' \<Longrightarrow> \<forall>a \<in> set (features r). a < length (feats h) \<Longrightarrow>
   feature_values h' r = feature_values h r"
  by (simp add: feature_values_def heap_extends_feat)

lemma length_graphs_update_graph: "length (graphs (update_graph a f h)) = length (graphs h)"
  by (simp add: update_graph_def)

lemma fold_update_graph_length:
  "length (graphs (fold (\<lambda>n. update_graph a (f n)) ns h)) = length (graphs h)
   \<and> feats (fold (\<lambda>n. update_graph a (f n)) ns h) = feats h"
  by (induction ns arbitrary: h) (simp_all add: length_graphs_update_graph feats_update_graph)

lemma get_linear_assemblies_store:
  "length (graphs (snd (get_linear_assemblies paths self h))) = Suc (length (graphs h))
   \<and> feats (snd (get_linear_assemblies paths self h)) = feats h"
  unfolding get_linear_assemblies_def copy_graph_def Let_def prod.case
  by (simp add: length_graphs_update_graph feats_update_graph fold_update_graph_length split: sum.splits)

lemma run_call_extends: "heap_extends h (run_call paths self c h)"
  by (cases c) (simp_all add: get_linear_assemblies_heap heap_extends_refl assemble_heap(1) [OF surjective_pairing])

lemma run_calls_extends: "heap_extends h (run_calls paths self calls h)"
  unfolding run_calls_def
proof (induction calls arbitrary: h)
  case Nil
  then show ?case by (simp add: heap_extends_refl)
next
  case (Cons c calls)
  have "heap_extends h (run_call paths self c h)" by (rule run_call_extends)
  then show ?case using Cons.IH [of "run_call paths self c h"] by (auto intro: heap_extends_trans)
qed

lemma example_live: "live example_asm example_heap"
  unfolding live_def example_self_G
  by (auto simp: example_asm_def example_heap_def example_feats_def node_seq_def example_graph_def
        example_nodes_def frag_a_def frag_b_def frag_c_def frag_a_rc_def frag_b_rc_def frag_c_rc_def
        split: if_splits)

text \<open>
  C7. \<open>get_linear_assemblies\<close>, \<open>get_circular_assemblies\<close> and \<open>assemble\<close> do not mutate
  the graph of the \<open>Assembly\<close> object or the input fragments. After any sequence of these
  calls every graph object and every feature object the store held before is at its address
  with its value, so the graph built at construction, the features of the fragments and the
  features of the records on the nodes read as before (the symbols and the circularity of a
  record are immutable values). \<open>get_linear_assemblies\<close> allocates one graph object, the
  copy it adds the \<open>begin\<close> and \<open>end\<close> nodes to, and no feature; every feature of a record
  returned by \<open>assemble\<close> is an object allocated by that call.
\<close>

theorem calls_do_not_mutate:
  "heap_extends h (run_calls paths self calls h)
   \<and> (live self h \<longrightarrow>
        self_G self (run_calls paths self calls h) = self_G self h
        \<and> (\<forall>r \<in> set (fragments self). feature_values (run_calls paths self calls h) r = feature_values h r)
        \<and> (\<forall>n r. node_seq (self_G self h) n = Inr r \<longrightarrow>
              feature_values (run_calls paths self calls h) r = feature_values h r))
   \<and> length (graphs (snd (get_linear_assemblies paths self h))) = Suc (length (graphs h))
   \<and> feats (snd (get_linear_assemblies paths self h)) = feats h
   \<and> (\<forall>a r h'. assemble self a h = (Inr r, h') \<longrightarrow> made_since (length (feats h)) h' r)"
proof -
  let ?h = "run_calls paths self calls h"
  have e: "heap_extends h ?h" by (rule run_calls_extends)
  have "self_G self ?h = self_G self h
        \<and> (\<forall>r \<in> set (fragments self). feature_values ?h r = feature_values h r)
        \<and> (\<forall>n r. node_seq (self_G self h) n = Inr r \<longrightarrow> feature_values ?h r = feature_values h r)"
    if l: "live self h"
  proof -
    have "self_G self ?h = self_G self h"
      using e l by (simp add: heap_extends_self_G live_def)
    moreover have "feature_values ?h r = feature_values h r" if "r \<in> set (fragments self)" for r
      using l that by (intro feature_values_extends [OF e]) (simp add: live_def)
    moreover have "feature_values ?h r = feature_values h r" if "node_seq (self_G self h) n = Inr r" for n r
      using l that by (intro feature_values_extends [OF e]) (auto simp: live_def)
    ultimately show ?thesis by blast
  qed
  moreover have "made_since (length (feats h)) h' r" if "assemble self a h = (Inr r, h')" for a r h'
    using assemble_heap(2) [OF that] by simp
  ultimately show ?thesis using e get_linear_assemblies_store [of paths self h] by blast
qed

theorem calls_do_not_mutate_witness:
  "live example_asm example_heap
   \<and> length (graphs (run_calls dfs_simple_edge_paths example_asm
          [GetLinear, Assemble [e12, e23, e31], GetCircular, Assemble [e12, e23]] example_heap)) = 2
   \<and> length (feats (run_calls dfs_simple_edge_paths example_asm
          [GetLinear, Assemble [e12, e23, e31], GetCircular, Assemble [e12, e23]] example_heap)) = 10
   \<and> self_G example_asm (run_calls dfs_simple_edge_paths example_asm
          [GetLinear, Assemble [e12, e23, e31], GetCircular, Assemble [e12, e23]] example_heap) = example_graph
   \<and> feature_values (run_calls dfs_simple_edge_paths example_asm
          [GetLinear, Assemble [e12, e23, e31], GetCircular, Assemble [e12, e23]] example_heap) frag_a
       = [\<lparr>location = SimpleLocation 2 6 (Some 1), ftype = ''misc_a''\<rparr>]
   \<and> feature_values (run_calls dfs_simple_edge_paths example_asm
          [GetLinear, Assemble [e12, e23, e31], GetCircular, Assemble [e12, e23]] example_heap) frag_c
       = [\<lparr>location = SimpleLocation 10 17 (Some 1), ftype = ''misc_c''\<rparr>]
   \<and> feature_values (run_calls dfs_simple_edge_paths example_asm
          [GetLinear, Assemble [e12, e23, e31], GetCircular, Assemble [e12, e23]] example_heap) frag_c_rc
       = [\<lparr>location = SimpleLocation 1 8 (Some (- 1)), ftype = ''misc_c''\<rparr>]
   \<and> fst (assemble example_asm [e12, e23, e31] example_heap)
       = Inr \<lparr>seq = ''acgatCAtgctccTAAattctgcGAGG'', features = [4, 6], circular = True\<rparr>
   \<and> feats (snd (assemble example_asm [e12, e23, e31] example_heap)) ! 6
       = \<lparr>location = CompoundLocation (25, 27, Some 1) (0, 5, Some 1) [], ftype = ''misc_c''\<rparr>
   \<and> made_since 4 (snd (assemble example_asm [e12, e23, e31] example_heap))
        \<lparr>seq = ''acgatCAtgctccTAAattctgcGAGG'', features = [4, 6], circular = True\<rparr>"
proof -
  let ?calls = "[GetLinear, Assemble [e12, e23, e31], GetCircular, Assemble [e12, e23]]"
  let ?h = "run_calls dfs_simple_edge_paths example_asm ?calls example_heap"
  let ?circ = "\<lparr>seq = ''acgatCAtgctccTAAattctgcGAGG'', features = [4, 6], circular = True\<rparr>"
  note t = calls_do_not_mutate [of example_heap dfs_simple_edge_paths example_asm ?calls]
  have l: "live example_asm example_heap" by (rule example_live)
  have n: "length (graphs ?h) = 2" by code_simp
  have m: "length (feats ?h) = 10" by code_simp
  from t l have g: "self_G example_asm ?h = example_graph" unfolding example_self_G by blast
  from t l have f: "\<forall>r \<in> set (fragments example_asm). feature_values ?h r = feature_values example_heap r"
    by blast
  from t l have k: "\<forall>n r. node_seq (self_G example_asm example_heap) n = Inr r \<longrightarrow>
                      feature_values ?h r = feature_values example_heap r"
    by blast
  have fa: "feature_values ?h frag_a = [\<lparr>location = SimpleLocation 2 6 (Some 1), ftype = ''misc_a''\<rparr>]"
    using f by (simp add: example_asm_def feature_values_def frag_a_def example_heap_def example_feats_def)
  have fc: "feature_values ?h frag_c = [\<lparr>location = SimpleLocation 10 17 (Some 1), ftype = ''misc_c''\<rparr>]"
    using f by (simp add: example_asm_def feature_values_def frag_c_def example_heap_def example_feats_def)
  have ns: "node_seq (self_G example_asm example_heap) (PyInt (- 3)) = Inr frag_c_rc"
    unfolding example_self_G by code_simp
  have fcr: "feature_values ?h frag_c_rc = [\<lparr>location = SimpleLocation 1 8 (Some (- 1)), ftype = ''misc_c''\<rparr>]"
    using k ns by (simp add: feature_values_def frag_c_rc_def example_heap_def example_feats_def)
  have a: "fst (assemble example_asm [e12, e23, e31] example_heap) = Inr ?circ" by code_simp
  have w: "feats (snd (assemble example_asm [e12, e23, e31] example_heap)) ! 6
             = \<lparr>location = CompoundLocation (25, 27, Some 1) (0, 5, Some 1) [], ftype = ''misc_c''\<rparr>"
    by code_simp
  obtain h' where r: "assemble example_asm [e12, e23, e31] example_heap = (Inr ?circ, h')"
    using a by (cases "assemble example_asm [e12, e23, e31] example_heap") auto
  have len: "length (feats example_heap) = 4" by (simp add: example_heap_def example_feats_def)
  from t r have "made_since (length (feats example_heap)) h' ?circ" by blast
  then have ms: "made_since 4 (snd (assemble example_asm [e12, e23, e31] example_heap)) ?circ"
    unfolding len r by simp
  show ?thesis using l n m g fa fc fcr a w ms by simp
qed

section \<open>Assembling the same assembly twice\<close>

lemma record_value_extends:
  "heap_extends h h' \<Longrightarrow> good h r \<Longrightarrow> record_value h' r = record_value h r"
  by (simp add: record_value_def good_def feature_values_extends)

lemma good_extends: "heap_extends h h' \<Longrightarrow> good h r \<Longrightarrow> good h' r"
  using heap_extends_length [of h h'] by (fastforce simp: good_def)

lemma live_extends:
  assumes "live self h" "heap_extends h h'"
  shows "live self h'" and "inputs_agree self h h'"
proof -
  have g: "self_G self h' = self_G self h"
    using assms by (simp add: live_def heap_extends_self_G)
  have l: "length (feats h) \<le> length (feats h')" using assms(2) by (rule heap_extends_length)
  have "length (graphs h) \<le> length (graphs h')"
    using assms(2) by (auto simp: heap_extends_def prefix_def)
  then show "live self h'"
    using assms(1) l unfolding live_def g by fastforce
  show "inputs_agree self h h'"
    unfolding inputs_agree_def g
    using assms feature_values_extends [OF assms(2)] by (auto simp: live_def)
qed

lemma inputs_agree_sym: "inputs_agree self h hX \<Longrightarrow> inputs_agree self hX h"
  by (auto simp: inputs_agree_def)

lemma inputs_agree_trans: "inputs_agree self h1 h2 \<Longrightarrow> inputs_agree self h2 h3 \<Longrightarrow> inputs_agree self h1 h3"
  by (auto simp: inputs_agree_def)

lemma map_nth_append_range:
  "map (\<lambda>a. (xs @ ys) ! a) [length xs ..< length xs + length ys] = ys"
  by (rule nth_equalityI) (simp_all add: nth_append)

lemma alloc_features_values:
  assumes "alloc_features h vs = (refs, h1)"
  shows "map (\<lambda>a. feats h1 ! a) refs = vs" and "distinct refs" and "\<forall>a \<in> set refs. a < length (feats h1)"
    and "\<forall>a \<in> set refs. length (feats h) \<le> a"
proof -
  note a = alloc_features_heap [OF assms]
  show "map (\<lambda>a. feats h1 ! a) refs = vs" unfolding a(1,3) by (rule map_nth_append_range)
  show "distinct refs" "\<forall>a \<in> set refs. a < length (feats h1)" "\<forall>a \<in> set refs. length (feats h) \<le> a"
    using a by simp_all
qed

lemma slice_record_values:
  assumes "slice_record h r start stop = (sub, h1)"
  shows "feature_values h1 sub =
           map (\<lambda>f. feature_shift f (- int (slice_lo (length (seq r)) start)))
             (filter (\<lambda>f. int (slice_lo (length (seq r)) start) \<le> loc_start (location f)
                           \<and> loc_end (location f) \<le> int (slice_hi (length (seq r)) stop))
                (feature_values h r))"
    and "good h1 sub"
proof -
  let ?vs = "map (\<lambda>f. feature_shift f (- int (slice_lo (length (seq r)) start)))
             (filter (\<lambda>f. int (slice_lo (length (seq r)) start) \<le> loc_start (location f)
                           \<and> loc_end (location f) \<le> int (slice_hi (length (seq r)) stop))
                (feature_values h r))"
  obtain refs h0 where a: "alloc_features h ?vs = (refs, h0)" by (cases "alloc_features h ?vs")
  have s: "sub = \<lparr>seq = py_slice (seq r) start stop, features = refs, circular = False\<rparr>" "h1 = h0"
    using assms a unfolding slice_record_def Let_def feature_values_def by simp_all
  note v = alloc_features_values [OF a]
  show "feature_values h1 sub = ?vs" using v(1) by (simp add: s feature_values_def)
  show "good h1 sub" using v(2,3) by (simp add: s good_def)
qed


lemma agree_extends:
  "agree h hX r rX \<Longrightarrow> heap_extends h h' \<Longrightarrow> heap_extends hX hX' \<Longrightarrow> agree h' hX' r rX"
  by (simp add: agree_def record_value_extends good_extends)

lemma node_seq_opt_agree:
  assumes "inputs_agree self h hX" "node_seq_opt (self_G self h) node = Inr sq"
  shows "feature_values h sq = feature_values hX sq"
  using assms by (cases node) (auto simp: inputs_agree_def node_seq_opt_def)

lemma get_assembly_subfragments_agree:
  assumes "live self h" "live self hX" "inputs_agree self h hX"
      and "get_assembly_subfragments self frs h = (res, h1)"
      and "get_assembly_subfragments self frs hX = (resX, hX1)"
  shows "(\<exists>e. res = Inl e \<and> resX = Inl e)
         \<or> (\<exists>subs subsX. res = Inr subs \<and> resX = Inr subsX \<and> list_all2 (agree h1 hX1) subs subsX)"
  using assms
proof (induction frs arbitrary: h hX res resX h1 hX1)
  case Nil
  then show ?case by auto
next
  case (Cons fr frs)
  obtain node sl el where fr: "fr = (node, sl, el)" by (cases fr)
  have g: "self_G self hX = self_G self h" using Cons.prems(3) by (simp add: inputs_agree_def)
  show ?case
  proof (cases "node_seq_opt (self_G self h) node")
    case (Inl e)
    then show ?thesis using Cons.prems(4,5) by (auto simp: fr g)
  next
    case (Inr sq)
    obtain sub h0 where s: "slice_record h sq (Some (slice_start sl)) (slice_end el) = (sub, h0)"
      by (cases "slice_record h sq (Some (slice_start sl)) (slice_end el)")
    obtain subX hX0 where sX: "slice_record hX sq (Some (slice_start sl)) (slice_end el) = (subX, hX0)"
      by (cases "slice_record hX sq (Some (slice_start sl)) (slice_end el)")
    obtain res' h1' where r: "get_assembly_subfragments self frs h0 = (res', h1')"
      by (cases "get_assembly_subfragments self frs h0")
    obtain resX' hX1' where rX: "get_assembly_subfragments self frs hX0 = (resX', hX1')"
      by (cases "get_assembly_subfragments self frs hX0")
    have fv: "feature_values h sq = feature_values hX sq"
      by (rule node_seq_opt_agree [OF Cons.prems(3) Inr])
    note sh = slice_record_heap [OF s] and shX = slice_record_heap [OF sX]
    from sh(1) obtain vs where vs: "feats h0 = feats h @ vs" by blast
    from shX(1) obtain vsX where vsX: "feats hX0 = feats hX @ vsX" by blast
    have e0: "heap_extends h h0" using sh(2) vs by (rule heap_extends_append)
    have eX0: "heap_extends hX hX0" using shX(2) vsX by (rule heap_extends_append)
    note sv = slice_record_values [OF s] and svX = slice_record_values [OF sX]
    have a0: "agree h0 hX0 sub subX"
      using sv svX sh(4,5) shX(4,5) fv by (simp add: agree_def record_value_def)
    note l0 = live_extends [OF Cons.prems(1) e0] and lX0 = live_extends [OF Cons.prems(2) eX0]
    have i0: "inputs_agree self h0 hX0"
      using l0(2) lX0(2) Cons.prems(3) by (blast intro: inputs_agree_sym inputs_agree_trans)
    note ih = Cons.IH [OF l0(1) lX0(1) i0 r rX]
    have e1: "heap_extends h0 h1'" using get_assembly_subfragments_heap [OF r] by blast
    have eX1: "heap_extends hX0 hX1'" using get_assembly_subfragments_heap [OF rX] by blast
    have a1: "agree h1' hX1' sub subX" by (rule agree_extends [OF a0 e1 eX1])
    have res: "(res, h1) = (case res' of Inl e \<Rightarrow> (Inl e, h1') | Inr subs \<Rightarrow> (Inr (sub # subs), h1'))"
      using Cons.prems(4) Inr s r by (simp add: fr split: sum.splits)
    have resX: "(resX, hX1) = (case resX' of Inl e \<Rightarrow> (Inl e, hX1') | Inr subs \<Rightarrow> (Inr (subX # subs), hX1'))"
      using Cons.prems(5) Inr sX rX by (simp add: fr g split: sum.splits)
    from ih show ?thesis
    proof
      assume "\<exists>e. res' = Inl e \<and> resX' = Inl e"
      then show ?thesis using res resX by auto
    next
      assume "\<exists>subs subsX. res' = Inr subs \<and> resX' = Inr subsX \<and> list_all2 (agree h1' hX1') subs subsX"
      then obtain subs subsX where "res' = Inr subs" "resX' = Inr subsX" "list_all2 (agree h1' hX1') subs subsX"
        by blast
      then show ?thesis using res resX a1 by auto
    qed
  qed
qed

lemma list_all2_zip_same:
  "list_all2 R xs ys \<Longrightarrow> list_all2 (\<lambda>p q. snd p = snd q \<and> R (fst p) (fst q)) (zip xs zs) (zip ys zs)"
proof (induction arbitrary: zs rule: list_all2_induct)
  case Nil
  then show ?case by simp
next
  case (Cons x xs y ys)
  then show ?case by (cases zs) simp_all
qed

lemma join_fragments_agree:
  assumes "list_all2 (\<lambda>p q. snd p = snd q \<and> agree h hX (fst p) (fst q)) fs fsX"
      and "agree h hX out outX"
      and "join_fragments out fs h = (out', h')" "join_fragments outX fsX hX = (outX', hX')"
  shows "agree h' hX' out' outX'"
  using assms
proof (induction fs arbitrary: fsX out outX h hX)
  case Nil
  then show ?case by auto
next
  case (Cons p fs)
  from Cons.prems(1) obtain q fsX' where fsX: "fsX = q # fsX'"
    and pq: "snd p = snd q" "agree h hX (fst p) (fst q)"
    and rest: "list_all2 (\<lambda>p q. snd p = snd q \<and> agree h hX (fst p) (fst q)) fs fsX'"
    by (auto simp: list_all2_Cons1)
  obtain f ov where p: "p = (f, ov)" by (cases p)
  obtain fX where q: "q = (fX, ov)" using pq(1) p by (cases q) auto
  have same: "seq out = seq outX" "feature_values h out = feature_values hX outX"
    "seq f = seq fX" "feature_values h f = feature_values hX fX"
    using Cons.prems(2) pq(2) by (simp_all add: agree_def record_value_def p q)
  let ?k = "int (length (seq out)) - ov"
  let ?vs = "map (\<lambda>a. feature_shift (feats h ! a) ?k) (features f)"
  let ?vsX = "map (\<lambda>a. feature_shift (feats hX ! a) ?k) (features fX)"
  have vs: "?vs = map (\<lambda>v. feature_shift v ?k) (feature_values h f)"
    by (simp add: feature_values_def comp_def)
  have vsX: "?vsX = map (\<lambda>v. feature_shift v ?k) (feature_values hX fX)"
    by (simp add: feature_values_def comp_def)
  have veq: "?vs = ?vsX" unfolding vs vsX same(4) ..
  obtain new h1 where a: "alloc_features h ?vs = (new, h1)" by (cases "alloc_features h ?vs")
  obtain newX hX1 where aX: "alloc_features hX ?vsX = (newX, hX1)" by (cases "alloc_features hX ?vsX")
  note ah = alloc_features_heap [OF a] and ahX = alloc_features_heap [OF aX]
  note av = alloc_features_values [OF a] and avX = alloc_features_values [OF aX]
  have e: "heap_extends h h1" using ah(2,1) by (rule heap_extends_append)
  have eX: "heap_extends hX hX1" using ahX(2,1) by (rule heap_extends_append)
  let ?o1 = "\<lparr>seq = seq out @ py_slice (seq f) (Some ov) None, features = features out @ new, circular = False\<rparr>"
  let ?oX1 = "\<lparr>seq = seq outX @ py_slice (seq fX) (Some ov) None, features = features outX @ newX, circular = False\<rparr>"
  have j: "join_fragments ?o1 fs h1 = (out', h')" using Cons.prems(3) a by (simp add: p)
  have jX: "join_fragments ?oX1 fsX' hX1 = (outX', hX')"
    using Cons.prems(4) aX by (simp add: fsX q same(1))
  have go: "good h out" "good hX outX" using Cons.prems(2) by (simp_all add: agree_def)
  have fo: "map (\<lambda>a. feats h1 ! a) (features out) = feature_values h out"
    using feature_values_extends [OF e, of out] go(1) by (simp add: good_def feature_values_def)
  have foX: "map (\<lambda>a. feats hX1 ! a) (features outX) = feature_values hX outX"
    using feature_values_extends [OF eX, of outX] go(2) by (simp add: good_def feature_values_def)
  have g1: "good h1 ?o1"
    using go(1) av(2,3,4) ah(1) by (fastforce simp: good_def)
  have gX1: "good hX1 ?oX1"
    using go(2) avX(2,3,4) ahX(1) by (fastforce simp: good_def)
  have a1: "agree h1 hX1 ?o1 ?oX1"
    using g1 gX1 same fo foX av(1) avX(1) veq
    by (simp add: agree_def record_value_def feature_values_def)
  have rest1: "list_all2 (\<lambda>p q. snd p = snd q \<and> agree h1 hX1 (fst p) (fst q)) fs fsX'"
    using rest by (rule list_all2_mono) (auto intro: agree_extends [OF _ e eX])
  show ?case by (rule Cons.IH [OF rest1 a1 j jX])
qed

lemma wrap_features_other:
  "wrap_features n refs h = (res, h') \<Longrightarrow> a \<notin> set refs \<Longrightarrow>
   feats h' ! a = feats h ! a \<and> length (feats h') = length (feats h)"
proof (induction refs arbitrary: h)
  case Nil
  then show ?case by simp
next
  case (Cons b refs)
  show ?case
  proof (cases "part_start (hd (parts (location (feats h ! b)))) \<ge> int n
                 \<or> part_end (last (parts (location (feats h ! b)))) > int n")
    case True
    show ?thesis
    proof (cases "shift_location (location (feats h ! b)) 0 n")
      case (Inl e)
      then show ?thesis using Cons.prems True by auto
    next
      case (Inr l)
      let ?h1 = "h\<lparr>feats := (feats h)[b := (feats h ! b)\<lparr>location := l\<rparr>]\<rparr>"
      have "wrap_features n refs ?h1 = (res, h')" using Cons.prems(1) True Inr by simp
      from Cons.IH [OF this] Cons.prems(2) show ?thesis by simp
    qed
  next
    case False
    then have "wrap_features n refs h = (res, h')" using Cons.prems(1) by auto
    from Cons.IH [OF this] Cons.prems(2) show ?thesis by simp
  qed
qed

lemma wrap_features_agree:
  assumes "length refs = length refsX" "distinct refs" "distinct refsX"
      and "map (\<lambda>a. feats h ! a) refs = map (\<lambda>a. feats hX ! a) refsX"
      and "\<forall>a \<in> set refs. a < length (feats h)" "\<forall>a \<in> set refsX. a < length (feats hX)"
      and "wrap_features n refs h = (res, h')" "wrap_features n refsX hX = (resX, hX')"
  shows "res = resX \<and> (\<forall>u. res = Inr u \<longrightarrow> map (\<lambda>a. feats h' ! a) refs = map (\<lambda>a. feats hX' ! a) refsX)"
  using assms
proof (induction refs refsX arbitrary: h hX rule: list_induct2)
  case Nil
  then show ?case by auto
next
  case (Cons a refs aX refsX)
  have f: "feats h ! a = feats hX ! aX" using Cons.prems(3) by simp
  have tl: "map (\<lambda>a. feats h ! a) refs = map (\<lambda>a. feats hX ! a) refsX" using Cons.prems(3) by simp
  have na: "a \<notin> set refs" "aX \<notin> set refsX" using Cons.prems(1,2) by simp_all
  have d: "distinct refs" "distinct refsX" using Cons.prems(1,2) by simp_all
  show ?case
  proof (cases "part_start (hd (parts (location (feats h ! a)))) \<ge> int n
                 \<or> part_end (last (parts (location (feats h ! a)))) > int n")
    case False
    then have w: "wrap_features n refs h = (res, h')" using Cons.prems(6) by auto
    from False have wX: "wrap_features n refsX hX = (resX, hX')" using Cons.prems(7) f by auto
    have ih: "res = resX \<and> (\<forall>u. res = Inr u \<longrightarrow> map (\<lambda>a. feats h' ! a) refs = map (\<lambda>a. feats hX' ! a) refsX)"
      using Cons.IH [OF d tl _ _ w wX] Cons.prems(4,5) by simp
    have "feats h' ! a = feats hX' ! aX"
      using wrap_features_other [OF w na(1)] wrap_features_other [OF wX na(2)] f by simp
    then show ?thesis using ih by simp
  next
    case True
    show ?thesis
    proof (cases "shift_location (location (feats h ! a)) 0 n")
      case (Inl e)
      then show ?thesis using Cons.prems(6,7) True f by auto
    next
      case (Inr l)
      let ?h1 = "h\<lparr>feats := (feats h)[a := (feats h ! a)\<lparr>location := l\<rparr>]\<rparr>"
      let ?hX1 = "hX\<lparr>feats := (feats hX)[aX := (feats hX ! aX)\<lparr>location := l\<rparr>]\<rparr>"
      have w: "wrap_features n refs ?h1 = (res, h')" using Cons.prems(6) True Inr by simp
      have wX: "wrap_features n refsX ?hX1 = (resX, hX')" using Cons.prems(7) True Inr f by simp
      have tl1: "map (\<lambda>b. feats ?h1 ! b) refs = map (\<lambda>b. feats ?hX1 ! b) refsX"
      proof -
        have "map (\<lambda>b. feats ?h1 ! b) refs = map (\<lambda>b. feats h ! b) refs"
          using na(1) by (intro map_cong refl) (simp, metis nth_list_update_neq)
        moreover have "map (\<lambda>b. feats ?hX1 ! b) refsX = map (\<lambda>b. feats hX ! b) refsX"
          using na(2) by (intro map_cong refl) (simp, metis nth_list_update_neq)
        ultimately show ?thesis using tl by simp
      qed
      have ih: "res = resX \<and> (\<forall>u. res = Inr u \<longrightarrow> map (\<lambda>a. feats h' ! a) refs = map (\<lambda>a. feats hX' ! a) refsX)"
        using Cons.IH [OF d tl1 _ _ w wX] Cons.prems(4,5) by simp
      have "feats h' ! a = feats ?h1 ! a" using wrap_features_other [OF w na(1)] by simp
      moreover have "feats hX' ! aX = feats ?hX1 ! aX" using wrap_features_other [OF wX na(2)] by simp
      moreover have "feats ?h1 ! a = feats ?hX1 ! aX" using Cons.prems(4,5) f by simp
      ultimately show ?thesis using ih by simp
    qed
  qed
qed

lemma edge_representation_agree:
  "self_G self hX = self_G self h \<Longrightarrow>
   edge_representation2subfragment_representation self hX a = edge_representation2subfragment_representation self h a"
  by (simp add: edge_representation2subfragment_representation_def)

lemma list_all2_agree_good:
  "list_all2 (agree h hX) xs ys \<Longrightarrow> xs = [] \<longleftrightarrow> ys = []"
  by (cases xs; cases ys) simp_all

lemma assemble_agree:
  assumes "live self h" "live self hX" "inputs_agree self h hX"
      and "assemble self a h = (res, h')" "assemble self a hX = (resX, hX')"
  shows "(\<exists>e. res = Inl e \<and> resX = Inl e)
         \<or> (\<exists>r rX. res = Inr r \<and> resX = Inr rX \<and> record_value h' r = record_value hX' rX)"
proof -
  have g: "self_G self hX = self_G self h" using assms(3) by (simp add: inputs_agree_def)
  note er = edge_representation_agree [OF g, of a]
  show ?thesis
  proof (cases "edge_representation2subfragment_representation self h a")
    case (Inl e)
    then show ?thesis using assms(4,5) er by (auto simp: assemble_def)
  next
    case frs: (Inr frs)
    show ?thesis
    proof (cases "fragment_overlaps_of (self_G self h) a")
      case (Inl e)
      then show ?thesis using assms(4,5) er frs g by (auto simp: assemble_def)
    next
      case ovs: (Inr ovs)
      obtain sres h1 where s: "get_assembly_subfragments self frs h = (sres, h1)"
        by (cases "get_assembly_subfragments self frs h")
      obtain sresX hX1 where sX: "get_assembly_subfragments self frs hX = (sresX, hX1)"
        by (cases "get_assembly_subfragments self frs hX")
      note ag = get_assembly_subfragments_agree [OF assms(1,2,3) s sX]
      from ag show ?thesis
      proof
        assume "\<exists>e. sres = Inl e \<and> sresX = Inl e"
        then show ?thesis using assms(4,5) er frs ovs g s sX by (auto simp: assemble_def)
      next
        assume "\<exists>subs subsX. sres = Inr subs \<and> sresX = Inr subsX \<and> list_all2 (agree h1 hX1) subs subsX"
        then obtain subs subsX where sr: "sres = Inr subs" "sresX = Inr subsX"
          and la: "list_all2 (agree h1 hX1) subs subsX" by blast
        show ?thesis
        proof (cases subs)
          case Nil
          then have "subsX = []" using la by simp
          then show ?thesis using assms(4,5) er frs ovs g s sX sr Nil by (auto simp: assemble_def)
        next
          case (Cons sub0 subs')
          then obtain subX0 subsX' where cx: "subsX = subX0 # subsX'"
            and a0: "agree h1 hX1 sub0 subX0" and la': "list_all2 (agree h1 hX1) subs' subsX'"
            using la by (auto simp: list_all2_Cons1)
          obtain out h2 where j: "join_fragments sub0 (zip subs' ovs) h1 = (out, h2)"
            by (cases "join_fragments sub0 (zip subs' ovs) h1")
          obtain outX hX2 where jX: "join_fragments subX0 (zip subsX' ovs) hX1 = (outX, hX2)"
            by (cases "join_fragments subX0 (zip subsX' ovs) hX1")
          note ao = join_fragments_agree [OF list_all2_zip_same [OF la'] a0 j jX]
          have rv: "record_value h2 out = record_value hX2 outX" and go: "good h2 out" "good hX2 outX"
            using ao by (simp_all add: agree_def)
          show ?thesis
          proof (cases "fst (snd (hd frs)) \<noteq> None")
            case False
            then have "res = Inr out" "h' = h2" "resX = Inr outX" "hX' = hX2"
              using assms(4,5) er frs ovs g s sX sr Cons cx j jX by (auto simp: assemble_def)
            then show ?thesis using rv by simp
          next
            case True
            let ?n = "length (seq (close_loop out (last ovs)))"
            have n: "length (seq (close_loop outX (last ovs))) = ?n"
              using rv by (simp add: close_loop_def record_value_def)
            obtain wres h3 where w: "wrap_features ?n (features out) h2 = (wres, h3)"
              by (cases "wrap_features ?n (features out) h2")
            obtain wresX hX3 where wX: "wrap_features ?n (features outX) hX2 = (wresX, hX3)"
              by (cases "wrap_features ?n (features outX) hX2")
            have fv: "map (\<lambda>a. feats h2 ! a) (features out) = map (\<lambda>a. feats hX2 ! a) (features outX)"
              using rv by (simp add: record_value_def feature_values_def)
            then have len: "length (features out) = length (features outX)"
              by (metis length_map)
            have wa: "wres = wresX \<and> (\<forall>u. wres = Inr u \<longrightarrow>
                        map (\<lambda>a. feats h3 ! a) (features out) = map (\<lambda>a. feats hX3 ! a) (features outX))"
              using go by (intro wrap_features_agree [OF len _ _ fv _ _ w wX]) (simp_all add: good_def)
            have r: "(res, h') = (case wres of Inl e \<Rightarrow> (Inl e, h3)
                                   | Inr u \<Rightarrow> (Inr (close_loop out (last ovs)), h3))"
              using assms(4) frs ovs s sr Cons j True w by (simp add: assemble_def split: sum.splits)
            have rX: "(resX, hX') = (case wresX of Inl e \<Rightarrow> (Inl e, hX3)
                                   | Inr u \<Rightarrow> (Inr (close_loop outX (last ovs)), hX3))"
              using assms(5) er frs ovs g sX sr cx jX True wX n by (simp add: assemble_def split: sum.splits)
            show ?thesis
            proof (cases wres)
              case (Inl e)
              then show ?thesis using r rX wa by auto
            next
              case (Inr u)
              then have "record_value h3 (close_loop out (last ovs)) = record_value hX3 (close_loop outX (last ovs))"
                using wa rv by (simp add: record_value_def feature_values_def close_loop_def)
              then show ?thesis using r rX wa Inr by auto
            qed
          qed
        qed
      qed
    qed
  qed
qed

lemma made_since_valid:
  "made_since n h r \<Longrightarrow> heap_extends h h' \<Longrightarrow> feature_values h' r = feature_values h r"
  by (rule feature_values_extends) (auto simp: made_since_def)

text \<open>
  C8. Two successive calls of \<open>assemble\<close> on the same edges give the same output: both
  raise the same error, or both return a record, and the two records, read after the second
  call, have equal symbols, equal circularity and equal lists of features (type and location);
  the second call leaves the features of the first record as they were. It holds for every
  list of edges, so for every assembly returned by \<open>get_linear_assemblies\<close> or
  \<open>get_circular_assemblies\<close>.
\<close>

theorem assemble_twice:
  assumes "live self h"
      and "assemble self a h = (res1, h1)" and "assemble self a h1 = (res2, h2)"
  shows "(\<exists>e. res1 = Inl e \<and> res2 = Inl e)
         \<or> (\<exists>r1 r2. res1 = Inr r1 \<and> res2 = Inr r2
               \<and> seq r2 = seq r1 \<and> circular r2 = circular r1
               \<and> feature_values h2 r2 = feature_values h2 r1
               \<and> feature_values h2 r1 = feature_values h1 r1)"
proof -
  note e1 = assemble_heap [OF assms(2)] and e2 = assemble_heap [OF assms(3)]
  note l1 = live_extends [OF assms(1) e1(1)]
  from assemble_agree [OF assms(1) l1(1) l1(2) assms(2,3)] show ?thesis
  proof
    assume "\<exists>e. res1 = Inl e \<and> res2 = Inl e"
    then show ?thesis by blast
  next
    assume "\<exists>r rX. res1 = Inr r \<and> res2 = Inr rX \<and> record_value h1 r = record_value h2 rX"
    then obtain r1 r2 where r: "res1 = Inr r1" "res2 = Inr r2"
      and v: "record_value h1 r1 = record_value h2 r2" by blast
    have k: "feature_values h2 r1 = feature_values h1 r1"
      using made_since_valid [OF e1(2) [OF r(1)] e2(1)] .
    show ?thesis using r v k by (auto simp: record_value_def)
  qed
qed

theorem assemble_twice_witness:
  "live example_asm example_heap
   \<and> fst (assemble example_asm [e12, e23, e31] example_heap)
       = Inr \<lparr>seq = ''acgatCAtgctccTAAattctgcGAGG'', features = [4, 6], circular = True\<rparr>
   \<and> fst (assemble example_asm [e12, e23, e31] (snd (assemble example_asm [e12, e23, e31] example_heap)))
       = Inr \<lparr>seq = ''acgatCAtgctccTAAattctgcGAGG'', features = [7, 9], circular = True\<rparr>
   \<and> feature_values (snd (assemble example_asm [e12, e23, e31] (snd (assemble example_asm [e12, e23, e31] example_heap))))
         \<lparr>seq = ''acgatCAtgctccTAAattctgcGAGG'', features = [7, 9], circular = True\<rparr>
       = feature_values (snd (assemble example_asm [e12, e23, e31] (snd (assemble example_asm [e12, e23, e31] example_heap))))
         \<lparr>seq = ''acgatCAtgctccTAAattctgcGAGG'', features = [4, 6], circular = True\<rparr>
   \<and> feature_values (snd (assemble example_asm [e12, e23, e31] example_heap))
         \<lparr>seq = ''acgatCAtgctccTAAattctgcGAGG'', features = [4, 6], circular = True\<rparr>
       = [\<lparr>location = SimpleLocation 1 5 (Some 1), ftype = ''misc_a''\<rparr>,
          \<lparr>location = CompoundLocation (25, 27, Some 1) (0, 5, Some 1) [], ftype = ''misc_c''\<rparr>]"
proof -
  let ?r1 = "\<lparr>seq = ''acgatCAtgctccTAAattctgcGAGG'', features = [4, 6], circular = True\<rparr>"
  let ?r2 = "\<lparr>seq = ''acgatCAtgctccTAAattctgcGAGG'', features = [7, 9], circular = True\<rparr>"
  let ?h1 = "snd (assemble example_asm [e12, e23, e31] example_heap)"
  let ?h2 = "snd (assemble example_asm [e12, e23, e31] ?h1)"
  have l: "live example_asm example_heap" by (rule example_live)
  have a1: "fst (assemble example_asm [e12, e23, e31] example_heap) = Inr ?r1" by code_simp
  have a2: "fst (assemble example_asm [e12, e23, e31] ?h1) = Inr ?r2" by code_simp
  have r1: "assemble example_asm [e12, e23, e31] example_heap = (Inr ?r1, ?h1)"
    using a1 by (cases "assemble example_asm [e12, e23, e31] example_heap") auto
  have r2: "assemble example_asm [e12, e23, e31] ?h1 = (Inr ?r2, ?h2)"
    using a2 by (cases "assemble example_asm [e12, e23, e31] ?h1") auto
  from assemble_twice [OF l r1 r2]
  have e: "feature_values ?h2 ?r2 = feature_values ?h2 ?r1" by simp
  have v: "feature_values ?h1 ?r1
             = [\<lparr>location = SimpleLocation 1 5 (Some 1), ftype = ''misc_a''\<rparr>,
                \<lparr>location = CompoundLocation (25, 27, Some 1) (0, 5, Some 1) [], ftype = ''misc_c''\<rparr>]"
    by code_simp
  show ?thesis using l a1 a2 e v by simp
qed

end
